theory Spec2Isabelle
  imports Main
begin

section \<open>tinyshell\_final.c: constants and data\<close>

text \<open>
  The shell is one C file. Its globals (\<open>jobs\<close>, \<open>next_jid\<close>, \<open>shell_pgid\<close>,
  \<open>shell_tmodes\<close>) become fields of one record, next to the part of the kernel's
  state that the shell reads or writes through system calls: the signal mask, the
  terminal, the children that have not been waited for, the child status changes
  \<open>waitpid\<close> has not yet returned, the open pipe descriptors, what was printed and
  which signals were sent. C's \<open>int\<close> and \<open>pid_t\<close> are \<open>int\<close>; the only
  arithmetic is \<open>next_jid++\<close>, whose overflow is written out below, and \<open>atoi\<close>.
\<close>

definition MAX_ARGS :: nat where "MAX_ARGS = 64"
definition MAX_JOBS :: nat where "MAX_JOBS = 16"
definition MAX_COMMANDS :: nat where "MAX_COMMANDS = 16"

text \<open>
  The range of a 32-bit \<open>int\<close>, and \<open>x++\<close> on it. At \<open>INT_MAX\<close> the increment
  overflows, which C leaves undefined; the value taken here is the one the usual
  two's-complement build computes, \<open>INT_MIN\<close>.
\<close>

definition INT_MAX :: int where "INT_MAX = 2147483647"
definition INT_MIN :: int where "INT_MIN = - 2147483648"

definition int_incr :: "int \<Rightarrow> int" where
  "int_incr x = (if x = INT_MAX then INT_MIN else x + 1)"

text \<open>Job states: \<open>#define UNDEF 0\<close>, \<open>FG 1\<close>, \<open>BG 2\<close>, \<open>ST 3\<close>.\<close>

datatype jstate = UNDEF | FG | BG | ST

record job_t =
  pid :: int
  jid :: int
  state :: jstate
  cmdline :: string

text \<open>What \<open>waitpid\<close> reports in \<open>status\<close>: \<open>WIFEXITED\<close>, \<open>WIFSIGNALED\<close>,
  \<open>WIFSTOPPED\<close> (with \<open>WSTOPSIG\<close>).\<close>

datatype wstatus = Exited int | Signaled int | Stopped int

datatype signal = SIGCONT

text \<open>\<open>printf\<close> writes a text to standard output; \<open>perror\<close> writes its argument
  (followed by the system's error text, which is not modelled) to standard error.\<close>

datatype out_item = Out string | Err string

text \<open>The contents of a \<open>struct termios\<close> are opaque to the shell.\<close>

type_synonym termios = nat

record shell =
  jobs :: "job_t list"
  next_jid :: int
  shell_pgid :: int
  shell_tmodes :: termios
  sigchld_blocked :: bool
  tty_pgrp :: int
  tty_modes :: termios
  children :: "int list"
  pending :: "(int \<times> wstatus) list"
  open_fds :: "int list"
  printed :: "out_item list"
  killed :: "(int \<times> signal) list"

text \<open>
  What a call of the shell comes to: it returns; or it is still inside the loop of
  \<open>waitfg\<close> when the events it was given are used up; or it calls \<open>exit\<close>; or it
  runs into behaviour that C leaves undefined.
\<close>

datatype 'a run = Returns 'a | Waits 'a | Exits int 'a | Undefined

fun state_of :: "'a run \<Rightarrow> 'a option" where
  "state_of (Returns s) = Some s"
| "state_of (Waits s) = Some s"
| "state_of (Exits k s) = Some s"
| "state_of Undefined = None"

text \<open>What happens around the shell: a child changes state (the kernel raises
  \<open>SIGCHLD\<close>), or a process on the terminal changes the terminal's modes.\<close>

datatype env_event = ChildChange int wstatus | TtyModes termios

text \<open>
  The kernel's answers to one command line: the results of the successive \<open>pipe\<close> and
  \<open>fork\<close> calls, by stage (\<open>None\<close>, or no entry, is the failure return -1), what
  happens between the forks and the unblocking of \<open>SIGCHLD\<close>, and what happens
  during each \<open>sleep(1)\<close> of \<open>waitfg\<close>.
\<close>

record os =
  pipes :: "(int \<times> int) option list"
  forks :: "int option list"
  launch_events :: "env_event list"
  wait_events :: "env_event list"

section \<open>Library functions\<close>

definition NL :: char where "NL = CHR 0x0A"

text \<open>The delimiters \<open>" \\t\\r\\n"\<close>.\<close>

definition blanks :: string where
  "blanks = [CHR '' '', CHR 0x09, CHR 0x0D, CHR 0x0A]"

text \<open>
  \<open>strtok\<close>: skip leading delimiters; at the end of the string there is no token;
  otherwise the token runs to the next delimiter, which is overwritten, and the scan
  resumes after it. The result is the token and the rest of the string.
\<close>

definition strtok :: "string \<Rightarrow> string \<Rightarrow> (string \<times> string) option" where
  "strtok delim s =
     (let t = dropWhile (\<lambda>c. c \<in> set delim) s in
      if t = [] then None
      else Some (takeWhile (\<lambda>c. c \<notin> set delim) t,
                 drop 1 (dropWhile (\<lambda>c. c \<notin> set delim) t)))"

text \<open>\<open>while (token) { a[i++] = token; token = strtok(NULL, delim); }\<close>\<close>

function strtok_all :: "string \<Rightarrow> string \<Rightarrow> string list" where
  "strtok_all delim s =
     (case strtok delim s of None \<Rightarrow> [] | Some (t, rest) \<Rightarrow> t # strtok_all delim rest)"
  by pat_completeness auto
termination
proof (relation "measure (\<lambda>(delim, s). length s)")
  show "wf (measure (\<lambda>(delim, s). length s))" by simp
next
  fix delim s :: string and x2 t rest
  assume a: "strtok delim s = Some x2" "(t, rest) = x2"
  define u where "u = dropWhile (\<lambda>c. c \<in> set delim) s"
  define d where "d = dropWhile (\<lambda>c. c \<notin> set delim) u"
  from a have "strtok delim s = Some (t, rest)" by simp
  then have u: "u \<noteq> []" and r: "rest = drop 1 d"
    unfolding strtok_def Let_def u_def d_def by (simp_all split: if_splits)
  have 1: "length d \<le> length u"
    unfolding d_def by (rule length_dropWhile_le)
  have 2: "length u \<le> length s"
    unfolding u_def by (rule length_dropWhile_le)
  from u have 3: "0 < length u" by simp
  have 4: "length rest = length d - 1" unfolding r by simp
  from 1 2 3 4 have "length rest < length s" by arith
  then show "((delim, rest), (delim, s)) \<in> measure (\<lambda>(delim, s). length s)"
    by simp
qed

declare strtok_all.simps [simp del]

text \<open>\<open>while (token && i < limit) { a[i++] = token; token = strtok(NULL, delim); }\<close>\<close>

function tok_loop :: "nat \<Rightarrow> string \<Rightarrow> nat \<Rightarrow> (string \<times> string) option \<Rightarrow> string list" where
  "tok_loop limit delim i token =
     (case token of
        None \<Rightarrow> []
      | Some (t, rest) \<Rightarrow>
          if i < limit then t # tok_loop limit delim (i + 1) (strtok delim rest) else [])"
  by pat_completeness auto
termination
  by (relation "measure (\<lambda>(limit, delim, i, token). limit - i)") auto

declare tok_loop.simps [simp del]

text \<open>
  \<open>atoi\<close> of the C library: white space, an optional sign, decimal digits; 0 when
  there is no digit. For a value outside \<open>int\<close> C leaves the result undefined; what is
  written out here is what the usual library computes, \<open>(int) strtol(s, NULL, 10)\<close>:
  the value is clamped to the range of a 64-bit \<open>long\<close> and then cut to its low 32 bits.
\<close>

definition isspace :: "char \<Rightarrow> bool" where
  "isspace c = (c \<in> set [CHR '' '', CHR 0x09, CHR 0x0A, CHR 0x0B, CHR 0x0C, CHR 0x0D])"

definition isdigit :: "char \<Rightarrow> bool" where
  "isdigit c = (48 \<le> (of_char c :: nat) \<and> (of_char c :: nat) \<le> 57)"

fun digits :: "int \<Rightarrow> string \<Rightarrow> int" where
  "digits acc [] = acc"
| "digits acc (c # cs) =
     (if isdigit c then digits (acc * 10 + (int (of_char c) - 48)) cs else acc)"

definition LONG_MAX :: int where "LONG_MAX = 9223372036854775807"
definition LONG_MIN :: int where "LONG_MIN = - 9223372036854775808"

definition strtol :: "string \<Rightarrow> int" where
  "strtol s =
     max LONG_MIN (min LONG_MAX
       (case dropWhile isspace s of
          [] \<Rightarrow> 0
        | c # cs \<Rightarrow>
            if c = CHR ''-'' then - digits 0 cs
            else if c = CHR ''+'' then digits 0 cs
            else digits 0 (c # cs)))"

definition int_of_long :: "int \<Rightarrow> int" where
  "int_of_long x = (x + 2147483648) mod 4294967296 - 2147483648"

definition atoi :: "string \<Rightarrow> int" where
  "atoi s = int_of_long (strtol s)"

text \<open>The conversion \<open>%d\<close> of \<open>printf\<close>.\<close>

function show_digits :: "int \<Rightarrow> string" where
  "show_digits k =
     (if k < 10 then [''0123456789'' ! nat k]
      else show_digits (k div 10) @ [''0123456789'' ! nat (k mod 10)])"
  by pat_completeness auto
termination
  by (relation "measure nat") auto

declare show_digits.simps [simp del]

definition show_int :: "int \<Rightarrow> string" where
  "show_int k = (if k < 0 then CHR ''-'' # show_digits (- k) else show_digits k)"

definition printf :: "string \<Rightarrow> shell \<Rightarrow> shell" where
  "printf txt s = s\<lparr>printed := printed s @ [Out txt]\<rparr>"

definition perror :: "string \<Rightarrow> shell \<Rightarrow> shell" where
  "perror msg s = s\<lparr>printed := printed s @ [Err msg]\<rparr>"

text \<open>\<open>tcsetpgrp(shell_terminal, pgrp)\<close>; the shell ignores its result, and the call
  is taken to succeed.\<close>

definition tcsetpgrp :: "int \<Rightarrow> shell \<Rightarrow> shell" where
  "tcsetpgrp pgrp s = s\<lparr>tty_pgrp := pgrp\<rparr>"

text \<open>\<open>kill(target, sig)\<close>: the call is recorded.\<close>

definition kill :: "int \<Rightarrow> signal \<Rightarrow> shell \<Rightarrow> shell" where
  "kill target sig s = s\<lparr>killed := killed s @ [(target, sig)]\<rparr>"

definition close :: "int \<Rightarrow> shell \<Rightarrow> shell" where
  "close fd s = s\<lparr>open_fds := removeAll fd (open_fds s)\<rparr>"

definition pipe_call :: "os \<Rightarrow> nat \<Rightarrow> (int \<times> int) option" where
  "pipe_call k i = (if i < length (pipes k) then pipes k ! i else None)"

definition fork_call :: "os \<Rightarrow> nat \<Rightarrow> int option" where
  "fork_call k i = (if i < length (forks k) then forks k ! i else None)"

text \<open>
  \<open>waitpid(-1, &status, WNOHANG | WUNTRACED)\<close>: the next status change that has not
  been returned yet, if there is one; a child that exited or was killed is then no
  longer a child. Otherwise 0 (or -1 without children), and \<open>status\<close> is not written.
\<close>

definition waitpid :: "shell \<Rightarrow> int \<times> wstatus \<times> shell" where
  "waitpid s =
     (case pending s of
        [] \<Rightarrow> (if children s = [] then - 1 else 0, Exited 0, s)
      | (p, w) # rest \<Rightarrow>
          (p, w, s\<lparr>pending := rest,
                   children := (case w of Stopped n \<Rightarrow> children s
                                | _ \<Rightarrow> removeAll p (children s))\<rparr>))"

section \<open>The job table\<close>

text \<open>\<open>for (int i = 0; i < MAX_JOBS; i++) if (P(jobs[i])) return i;\<close> and no index
  (\<open>NULL\<close>, or falling out of the loop) otherwise. A pointer to a slot is its index.\<close>

function find_job :: "(job_t \<Rightarrow> bool) \<Rightarrow> job_t list \<Rightarrow> nat \<Rightarrow> nat option" where
  "find_job P js i =
     (if i < MAX_JOBS then (if P (js ! i) then Some i else find_job P js (i + 1))
      else None)"
  by pat_completeness auto
termination
  by (relation "measure (\<lambda>(P, js, i). MAX_JOBS - i)") auto

declare find_job.simps [simp del]

definition clearjob :: "job_t \<Rightarrow> job_t" where
  "clearjob job = job\<lparr>pid := 0, jid := 0, state := UNDEF, cmdline := []\<rparr>"

definition initjobs :: "job_t list \<Rightarrow> job_t list" where
  "initjobs js = map clearjob (take MAX_JOBS js) @ drop MAX_JOBS js"

definition addjob :: "int \<Rightarrow> jstate \<Rightarrow> string \<Rightarrow> shell \<Rightarrow> int \<times> shell" where
  "addjob p st cl s =
     (if p < 1 then (0, s)
      else case find_job (\<lambda>j. pid j = 0) (jobs s) 0 of
             Some i \<Rightarrow>
               (1, s\<lparr>jobs := (jobs s)[i := (jobs s ! i)\<lparr>pid := p, state := st,
                                                         jid := next_jid s, cmdline := cl\<rparr>],
                      next_jid := int_incr (next_jid s)\<rparr>)
           | None \<Rightarrow> (0, s))"

definition deletejob :: "int \<Rightarrow> shell \<Rightarrow> int \<times> shell" where
  "deletejob p s =
     (if p < 1 then (0, s)
      else case find_job (\<lambda>j. pid j = p) (jobs s) 0 of
             Some i \<Rightarrow> (1, s\<lparr>jobs := (jobs s)[i := clearjob (jobs s ! i)]\<rparr>)
           | None \<Rightarrow> (0, s))"

definition getjobpid :: "job_t list \<Rightarrow> int \<Rightarrow> nat option" where
  "getjobpid js p = find_job (\<lambda>j. pid j = p) js 0"

definition getjobjid :: "job_t list \<Rightarrow> int \<Rightarrow> nat option" where
  "getjobjid js k = find_job (\<lambda>j. jid j = k) js 0"

definition pid2jid :: "int \<Rightarrow> shell \<Rightarrow> int" where
  "pid2jid p s =
     (case find_job (\<lambda>j. pid j = p) (jobs s) 0 of Some i \<Rightarrow> jid (jobs s ! i) | None \<Rightarrow> 0)"

definition listjobs :: "shell \<Rightarrow> shell" where
  "listjobs s =
     foldl (\<lambda>s' j.
        if pid j \<noteq> 0 then
          printf (cmdline j @ [NL])
            (printf (if state j = BG then ''Running '' else if state j = FG then ''Foreground ''
                     else ''Stopped '')
              (printf (''['' @ show_int (jid j) @ ''] ('' @ show_int (pid j) @ '') '') s'))
        else s')
       s (take MAX_JOBS (jobs s))"

section \<open>The signal layer\<close>

text \<open>The body of the loop of \<open>sigchld_handler\<close>, for the event \<open>waitpid\<close> returned.\<close>

definition reap :: "int \<Rightarrow> wstatus \<Rightarrow> shell \<Rightarrow> shell" where
  "reap p w s =
     (case w of
        Stopped n \<Rightarrow>
          (case getjobpid (jobs s) p of
             Some i \<Rightarrow>
               printf (''Job ['' @ show_int (jid (jobs s ! i)) @ ''] (''
                       @ show_int (pid (jobs s ! i)) @ '') stopped by signal ''
                       @ show_int n @ [NL])
                 (s\<lparr>jobs := (jobs s)[i := (jobs s ! i)\<lparr>state := ST\<rparr>]\<rparr>)
           | None \<Rightarrow> s)
      | _ \<Rightarrow> snd (deletejob p s))"

function sigchld_handler :: "shell \<Rightarrow> shell" where
  "sigchld_handler s =
     (case waitpid s of (p, w, s') \<Rightarrow> if 0 < p then sigchld_handler (reap p w s') else s')"
  by pat_completeness auto
termination
proof (relation "measure (\<lambda>s. length (pending s))")
  show "wf (measure (\<lambda>s. length (pending s)))" by simp
next
  fix s :: shell and p :: int and y :: "wstatus \<times> shell" and w s'
  assume a: "(p, y) = waitpid s" "(w, s') = y" "0 < p"
  have r: "pending (reap p w s') = pending s'"
    by (auto simp: reap_def deletejob_def printf_def split: wstatus.splits option.splits)
  from a have "waitpid s = (p, w, s')" by simp
  with a have "length (pending s') < length (pending s)"
    by (auto simp: waitpid_def split: list.splits if_splits)
  with r show "(reap p w s', s) \<in> measure (\<lambda>s. length (pending s))" by simp
qed

declare sigchld_handler.simps [simp del]

text \<open>
  The kernel side of an event. A status change is queued for \<open>waitpid\<close>, and the
  handler runs unless \<open>SIGCHLD\<close> is blocked; a blocked \<open>SIGCHLD\<close> is delivered when
  the mask is set back.
\<close>

definition kernel_event :: "env_event \<Rightarrow> shell \<Rightarrow> shell" where
  "kernel_event e s =
     (case e of
        TtyModes m \<Rightarrow> s\<lparr>tty_modes := m\<rparr>
      | ChildChange p w \<Rightarrow>
          (let s' = s\<lparr>pending := pending s @ [(p, w)]\<rparr>
           in if sigchld_blocked s' then s' else sigchld_handler s'))"

text \<open>\<open>sigprocmask(SIG_BLOCK, {SIGCHLD}, &prev)\<close> and \<open>sigprocmask(SIG_SETMASK, &prev, NULL)\<close>.\<close>

definition sigprocmask_block :: "shell \<Rightarrow> bool \<times> shell" where
  "sigprocmask_block s = (sigchld_blocked s, s\<lparr>sigchld_blocked := True\<rparr>)"

definition sigprocmask_setmask :: "bool \<Rightarrow> shell \<Rightarrow> shell" where
  "sigprocmask_setmask prev s =
     (let s' = s\<lparr>sigchld_blocked := prev\<rparr> in if prev then s' else sigchld_handler s')"

section \<open>The foreground controller\<close>

text \<open>The condition of the loop of \<open>waitfg\<close>:
  \<open>job != NULL && job->pid == pid && job->state == FG\<close>.\<close>

definition waiting :: "nat option \<Rightarrow> int \<Rightarrow> shell \<Rightarrow> bool" where
  "waiting job p s =
     (case job of None \<Rightarrow> False
      | Some i \<Rightarrow> pid (jobs s ! i) = p \<and> state (jobs s ! i) = FG)"

text \<open>The loop: each \<open>sleep(1)\<close> lets one event happen.\<close>

fun waitfg_loop :: "env_event list \<Rightarrow> nat option \<Rightarrow> int \<Rightarrow> shell \<Rightarrow> shell run" where
  "waitfg_loop [] job p s = (if waiting job p s then Waits s else Returns s)"
| "waitfg_loop (e # es) job p s =
     (if waiting job p s then waitfg_loop es job p (kernel_event e s) else Returns s)"

definition waitfg :: "env_event list \<Rightarrow> int \<Rightarrow> shell \<Rightarrow> shell run" where
  "waitfg evs p s =
     (let s1 = tcsetpgrp p s;
          job = getjobpid (jobs s1) p
      in case waitfg_loop evs job p s1 of
           Returns s2 \<Rightarrow> Returns (tcsetpgrp (shell_pgid s2) s2)
         | r \<Rightarrow> r)"

section \<open>Built-ins\<close>

definition set_state :: "nat \<Rightarrow> jstate \<Rightarrow> shell \<Rightarrow> shell" where
  "set_state i st s = s\<lparr>jobs := (jobs s)[i := (jobs s ! i)\<lparr>state := st\<rparr>]\<rparr>"

text \<open>\<open>argv\<close> is the list of the words up to the terminating \<open>NULL\<close>; \<open>argv[0]\<close> is
  \<open>bg\<close> or \<open>fg\<close>.\<close>

definition do_bgfg :: "env_event list \<Rightarrow> string list \<Rightarrow> shell \<Rightarrow> shell run" where
  "do_bgfg evs argv s =
     (case tl argv of
        [] \<Rightarrow> Returns (printf (''requires PID or %jobid'' @ [NL]) s)
      | ident # others \<Rightarrow>
          (let (job, complaint) =
                 (if take 1 ident = ''%'' then
                    (let k = atoi (drop 1 ident)
                     in (getjobjid (jobs s) k, ''%'' @ show_int k @ '': No such job'' @ [NL]))
                  else
                    (let p = atoi ident
                     in (getjobpid (jobs s) p,
                         ''('' @ show_int p @ ''): No such process'' @ [NL])))
           in case job of
                None \<Rightarrow> Returns (printf complaint s)
              | Some i \<Rightarrow>
                  (let s1 = kill (- pid (jobs s ! i)) SIGCONT s in
                   if hd argv = ''bg'' then
                     Returns
                       (printf (''['' @ show_int (jid (jobs s1 ! i)) @ ''] (''
                                @ show_int (pid (jobs s1 ! i)) @ '') ''
                                @ cmdline (jobs s1 ! i) @ [NL])
                          (set_state i BG s1))
                   else waitfg evs (pid (jobs s1 ! i)) (set_state i FG s1))))"

section \<open>The pipeline builder, in the shell\<close>

text \<open>
  One turn of the loop over the stages, as the parent runs it: \<open>n\<close> is \<open>cmd_count\<close>,
  \<open>prev\<close> is \<open>prev_pipe_read\<close>, \<open>leader\<close> is \<open>group_leader_pid\<close>. \<open>Inl\<close> is the
  \<open>return\<close> after a failed \<open>pipe\<close> or \<open>fork\<close>; \<open>Inr\<close> carries the variables into
  the next turn. (\<open>setpgid\<close> acts on the kernel's process groups, which are not part
  of the state; the \<open>tcsetpgrp\<close> of the first child of a foreground pipeline runs in
  that child, at a time of its own, and is not recorded: \<open>tty_pgrp\<close> changes where the
  shell itself calls \<open>tcsetpgrp\<close>, in \<open>waitfg\<close>.)
\<close>

definition stage :: "os \<Rightarrow> nat \<Rightarrow> nat \<Rightarrow> int \<Rightarrow> int \<Rightarrow> shell \<Rightarrow> shell + int \<times> int \<times> shell" where
  "stage k n i prev leader s =
     (case (if i + 1 < n then
              (case pipe_call k i of
                 None \<Rightarrow> Inl (perror ''pipe'' s)
               | Some (r, w) \<Rightarrow> Inr (Some (r, w), s\<lparr>open_fds := r # w # open_fds s\<rparr>))
            else Inr (None, s)) of
        Inl s' \<Rightarrow> Inl s'
      | Inr (pipefd, s1) \<Rightarrow>
          (case fork_call k i of
             None \<Rightarrow> Inl (perror ''fork'' s1)
           | Some child \<Rightarrow>
               (let leader' = (if i = 0 then child else leader);
                    s2 = s1\<lparr>children := child # children s1\<rparr>;
                    s3 = (if prev \<noteq> 0 then close prev s2 else s2)
                in case pipefd of
                     Some (r, w) \<Rightarrow> Inr (r, leader', close w s3)
                   | None \<Rightarrow> Inr (prev, leader', s3))))"

function fork_stages :: "os \<Rightarrow> nat \<Rightarrow> nat \<Rightarrow> int \<Rightarrow> int \<Rightarrow> shell \<Rightarrow> shell + int \<times> shell" where
  "fork_stages k n i prev leader s =
     (if i < n then
        (case stage k n i prev leader s of
           Inl s' \<Rightarrow> Inl s'
         | Inr (prev', leader', s') \<Rightarrow> fork_stages k n (i + 1) prev' leader' s')
      else Inr (leader, s))"
  by pat_completeness auto
termination
  by (relation "measure (\<lambda>(k, n, i, prev, leader, s). n - i)") auto

declare fork_stages.simps [simp del]

text \<open>\<open>char *p = strchr(last, '&'); if (p) *p = ' ';\<close>\<close>

fun blank_amp :: "string \<Rightarrow> string" where
  "blank_amp [] = []"
| "blank_amp (c # cs) = (if c = CHR ''&'' then CHR '' '' # cs else c # blank_amp cs)"

text \<open>The array \<open>commands\<close> as the children see it. With \<open>bg\<close> set and no command,
  \<open>commands[cmd_count-1]\<close> is outside the array.\<close>

definition split_commands :: "string \<Rightarrow> string list" where
  "split_commands line =
     tok_loop MAX_COMMANDS ''|'' 0 (strtok ''|'' (takeWhile (\<lambda>c. c \<noteq> NL) line))"

definition commands_of :: "string \<Rightarrow> bool \<Rightarrow> string list" where
  "commands_of line bg =
     (let commands = split_commands line
      in if bg then butlast commands @ [blank_amp (last commands)] else commands)"

definition process_pipeline :: "os \<Rightarrow> string \<Rightarrow> bool \<Rightarrow> shell \<Rightarrow> shell run" where
  "process_pipeline k line bg s =
     (let n = length (split_commands line) in
      if bg \<and> n = 0 then Undefined
      else
        (let (prev, s1) = sigprocmask_block s in
         case fork_stages k n 0 0 0 s1 of
           Inl s2 \<Rightarrow> Returns s2
         | Inr (leader, s2) \<Rightarrow>
             (let s3 = foldl (\<lambda>s' e. kernel_event e s') s2 (launch_events k);
                  s4 = snd (addjob leader (if bg then BG else FG) line s3);
                  s5 = sigprocmask_setmask prev s4
              in if \<not> bg then waitfg (wait_events k) leader s5
                 else Returns
                        (printf (''['' @ show_int (pid2jid leader s5) @ ''] (''
                                 @ show_int leader @ '') '' @ line @ [NL]) s5))))"

text \<open>\<open>eval\<close>: the words of the line go into \<open>char *argv[MAX_ARGS]\<close> without a bound,
  and \<open>argv[argc] = NULL\<close> follows them; with \<open>MAX_ARGS\<close> words or more the array is
  overrun.\<close>

definition eval :: "os \<Rightarrow> string \<Rightarrow> shell \<Rightarrow> shell run" where
  "eval k line s =
     (let argv = strtok_all blanks line in
      if MAX_ARGS \<le> length argv then Undefined
      else if argv = [] then Returns s
      else if hd argv = ''exit'' then Exits 0 s
      else if hd argv = ''jobs'' then Returns (listjobs s)
      else if hd argv = ''bg'' \<or> hd argv = ''fg'' then do_bgfg (wait_events k) argv s
      else process_pipeline k line (last argv = ''&'') s)"

text \<open>The state in which \<open>main\<close> enters its loop: the shell with process id \<open>self\<close>
  leads its own group, owns the terminal and has saved the terminal's modes.\<close>

definition empty_job :: job_t where
  "empty_job = \<lparr>pid = 0, jid = 0, state = UNDEF, cmdline = []\<rparr>"

definition boot :: "int \<Rightarrow> termios \<Rightarrow> shell" where
  "boot self modes =
     \<lparr>jobs = initjobs (replicate MAX_JOBS empty_job), next_jid = 1, shell_pgid = self,
      shell_tmodes = modes, sigchld_blocked = False, tty_pgrp = self, tty_modes = modes,
      children = [], pending = [], open_fds = [], printed = [], killed = []\<rparr>"

section \<open>The pipeline builder, in a child\<close>

text \<open>
  A child is described by what its standard input and standard output are connected
  to. \<open>open\<close> is answered by the file system \<open>fs\<close>, which says whether a call
  succeeds; the descriptor it returns stands for the file as it was opened.
\<close>

datatype oflag = O_RDONLY | O_WRONLY | O_CREAT | O_TRUNC | O_APPEND

record open_call =
  path :: string
  flags :: "oflag set"
  mode :: "nat option"

datatype endpoint = Inherited | Pipe int | File open_call

text \<open>How a child ends: \<open>exit(status)\<close> after what it printed, or the call
  \<open>execvp(args[0], args)\<close> with its standard input and output.\<close>

datatype child_end = Exit int "out_item list" | Execvp "string list" endpoint endpoint

text \<open>Octal 0644.\<close>

definition mode_0644 :: nat where "mode_0644 = 6 * 64 + 4 * 8 + 4"

definition open_read :: "string \<Rightarrow> open_call" where
  "open_read f = \<lparr>path = f, flags = {O_RDONLY}, mode = None\<rparr>"

definition open_trunc :: "string \<Rightarrow> open_call" where
  "open_trunc f = \<lparr>path = f, flags = {O_WRONLY, O_CREAT, O_TRUNC}, mode = Some mode_0644\<rparr>"

definition open_append :: "string \<Rightarrow> open_call" where
  "open_append f = \<lparr>path = f, flags = {O_WRONLY, O_CREAT, O_APPEND}, mode = Some mode_0644\<rparr>"

text \<open>
  \<open>args\<close> is the list of the words before the terminating \<open>NULL\<close>, so
  \<open>args[k] != NULL\<close> is \<open>k < length args\<close>. The shift
  \<open>while (args[j+2] != NULL) { args[j] = args[j+2]; j++; } args[j] = NULL;\<close>
\<close>

function shift_args :: "nat \<Rightarrow> string list \<Rightarrow> string list" where
  "shift_args j args =
     (if j + 2 < length args then shift_args (j + 1) (args[j := args ! (j + 2)])
      else take j args)"
  by pat_completeness auto
termination
  by (relation "measure (\<lambda>(j, args). length args - j)") auto

declare shift_args.simps [simp del]

text \<open>The loop of \<open>handle_redirections\<close>; the result is the return value, \<open>args\<close>,
  \<open>*in_fd\<close>, \<open>*out_fd\<close> (\<open>None\<close> is -1) and what \<open>perror\<close> wrote.\<close>

function redirect_loop ::
  "(open_call \<Rightarrow> bool) \<Rightarrow> nat \<Rightarrow> string list \<Rightarrow> endpoint option \<Rightarrow> endpoint option
   \<Rightarrow> int \<times> string list \<times> endpoint option \<times> endpoint option \<times> out_item list" where
  "redirect_loop fs i args in_fd out_fd =
     (if i < length args then
        (if args ! i = ''<'' then
           (if \<not> i + 1 < length args then (- 1, args, in_fd, out_fd, [])
            else if \<not> fs (open_read (args ! (i + 1)))
              then (- 1, args, in_fd, out_fd, [Err ''open <''])
            else redirect_loop fs i (shift_args i args)
                   (Some (File (open_read (args ! (i + 1))))) out_fd)
         else if args ! i = ''>'' then
           (if \<not> i + 1 < length args then (- 1, args, in_fd, out_fd, [])
            else if \<not> fs (open_trunc (args ! (i + 1)))
              then (- 1, args, in_fd, out_fd, [Err ''open >''])
            else redirect_loop fs i (shift_args i args)
                   in_fd (Some (File (open_trunc (args ! (i + 1))))))
         else if args ! i = ''>>'' then
           (if \<not> i + 1 < length args then (- 1, args, in_fd, out_fd, [])
            else if \<not> fs (open_append (args ! (i + 1)))
              then (- 1, args, in_fd, out_fd, [Err ''open >>''])
            else redirect_loop fs i (shift_args i args)
                   in_fd (Some (File (open_append (args ! (i + 1))))))
         else redirect_loop fs (i + 1) args in_fd out_fd)
      else (0, args, in_fd, out_fd, []))"
  by pat_completeness auto
termination
proof -
  have shorter: "length (shift_args j a) < length a" if "j + 1 < length a" for j a
    using that
  proof (induction j a rule: shift_args.induct)
    case (1 j args)
    show ?case
    proof (cases "j + 2 < length args")
      case True
      then have "j + 1 + 1 < length (args[j := args ! (j + 2)])" by simp
      from "1.IH"[OF True this] True show ?thesis
        by (simp add: shift_args.simps[of j args])
    next
      case False
      with "1.prems" show ?thesis by (simp add: shift_args.simps[of j args])
    qed
  qed
  have less: "length (shift_args j a) - j < length a - j" if "Suc j < length a" for j a
    using shorter[of j a] that by arith
  show ?thesis
    by (relation "measure (\<lambda>(fs, i, args, in_fd, out_fd). length args - i)")
       (auto simp: less)
qed

declare redirect_loop.simps [simp del]

definition handle_redirections ::
  "(open_call \<Rightarrow> bool) \<Rightarrow> string list \<Rightarrow> endpoint option \<Rightarrow> endpoint option
   \<Rightarrow> int \<times> string list \<times> endpoint option \<times> endpoint option \<times> out_item list" where
  "handle_redirections fs args in_fd out_fd = redirect_loop fs 0 args in_fd out_fd"

text \<open>The words of a stage, as \<open>parse_and_execute_stage\<close> collects them.\<close>

definition stage_args :: "string \<Rightarrow> string list" where
  "stage_args cmd_segment = tok_loop (MAX_ARGS - 1) blanks 0 (strtok blanks cmd_segment)"

definition parse_and_execute_stage ::
  "(open_call \<Rightarrow> bool) \<Rightarrow> string \<Rightarrow> endpoint option \<Rightarrow> endpoint option
   \<Rightarrow> endpoint \<Rightarrow> endpoint \<Rightarrow> child_end" where
  "parse_and_execute_stage fs cmd_segment in_fd out_fd stdin stdout =
     (let args = stage_args cmd_segment in
      if args = [] then Exit 0 []
      else case handle_redirections fs args in_fd out_fd of
             (ret, args', in_fd', out_fd', diag) \<Rightarrow>
               if ret < 0 then Exit 1 diag
               else Execvp args'
                      (case in_fd' of Some e \<Rightarrow> e | None \<Rightarrow> stdin)
                      (case out_fd' of Some e \<Rightarrow> e | None \<Rightarrow> stdout))"


section \<open>Redirections, as the specification words them\<close>

text \<open>The word list without the redirection tokens and their file names.\<close>

definition is_redirect :: "string \<Rightarrow> bool" where
  "is_redirect a = (a = ''<'' \<or> a = ''>'' \<or> a = ''>>'')"






section \<open>The shell as a transition system\<close>

text \<open>
  At the prompt the shell reads a command line and evaluates it, with the kernel's
  answers; or an event happens while it waits for the line. The kernel's one promise
  used here: \<open>fork\<close> returns a positive process id that no child still to be waited
  for has.
\<close>

datatype input = Command string os | Event env_event

definition forked :: "os \<Rightarrow> int list" where
  "forked k = concat (map (\<lambda>r. case r of None \<Rightarrow> [] | Some p \<Rightarrow> [p]) (forks k))"

definition input_ok :: "input \<Rightarrow> shell \<Rightarrow> bool" where
  "input_ok inp s =
     (case inp of
        Command line k \<Rightarrow> list_all (\<lambda>p. 1 \<le> p \<and> p \<notin> set (children s)) (forked k)
      | Event e \<Rightarrow> True)"

definition shell_step :: "input \<Rightarrow> shell \<Rightarrow> shell run" where
  "shell_step inp s =
     (case inp of Command line k \<Rightarrow> eval k line s | Event e \<Rightarrow> Returns (kernel_event e s))"

inductive reach :: "shell run \<Rightarrow> bool" where
  reach_boot: "1 \<le> self \<Longrightarrow> reach (Returns (boot self modes))"
| reach_step: "reach (Returns s) \<Longrightarrow> input_ok inp s \<Longrightarrow> reach (shell_step inp s)"

text \<open>Later in a run in which \<open>next_jid\<close> is below \<open>INT_MAX\<close> whenever the shell
  takes a command line or an event: the increment has not overflowed on the way.\<close>

inductive before_wrap :: "shell run \<Rightarrow> shell run \<Rightarrow> bool" where
  before_wrap_refl: "before_wrap r r"
| before_wrap_step: "before_wrap r (Returns s) \<Longrightarrow> next_jid s < INT_MAX \<Longrightarrow> input_ok inp s \<Longrightarrow>
     before_wrap r (shell_step inp s)"

text \<open>The live jobs are the slots whose \<open>pid\<close> is not 0, as \<open>listjobs\<close> and
  \<open>addjob\<close> tell them from the empty ones.\<close>

definition live :: "shell \<Rightarrow> job_t list" where
  "live s = filter (\<lambda>j. pid j \<noteq> 0) (take MAX_JOBS (jobs s))"

section \<open>Invariants of the job table\<close>

text \<open>
  What holds of the table whenever the shell is at its prompt or waits in \<open>waitfg\<close>:
  the table has its \<open>MAX_JOBS\<close> slots, every live slot holds a positive process id of
  a child still to be waited for, and two live slots differ in their process ids.
\<close>

definition table_ok :: "shell \<Rightarrow> bool" where
  "table_ok s =
     (length (jobs s) = MAX_JOBS
      \<and> (\<forall>i<MAX_JOBS. pid (jobs s ! i) \<noteq> 0 \<longrightarrow>
             1 \<le> pid (jobs s ! i) \<and> pid (jobs s ! i) \<in> set (children s))
      \<and> (\<forall>i<MAX_JOBS. \<forall>k<MAX_JOBS.
             pid (jobs s ! i) \<noteq> 0 \<and> pid (jobs s ! k) \<noteq> 0 \<and> i \<noteq> k \<longrightarrow>
             pid (jobs s ! i) \<noteq> pid (jobs s ! k)))"

text \<open>Every live slot in state \<open>FG\<close> satisfies \<open>A\<close>, given its index and its
  process id.\<close>

definition fg_in :: "(nat \<Rightarrow> int \<Rightarrow> bool) \<Rightarrow> shell \<Rightarrow> bool" where
  "fg_in A s =
     (\<forall>i<MAX_JOBS. pid (jobs s ! i) \<noteq> 0 \<and> state (jobs s ! i) = FG \<longrightarrow> A i (pid (jobs s ! i)))"

text \<open>At the prompt, and when the shell exits, no live job is in the foreground; inside
  \<open>waitfg\<close> the foreground jobs all have one process id.\<close>

definition good :: "shell run \<Rightarrow> bool" where
  "good r =
     (case r of
        Returns s \<Rightarrow> table_ok s \<and> fg_in (\<lambda>i q. False) s
      | Waits s \<Rightarrow> table_ok s \<and> (\<exists>p. fg_in (\<lambda>i q. q = p) s)
      | Exits k s \<Rightarrow> table_ok s \<and> fg_in (\<lambda>i q. False) s
      | Undefined \<Rightarrow> True)"

text \<open>The counter of job ids is incremented at most once between two states.\<close>

definition near :: "shell \<Rightarrow> shell \<Rightarrow> bool" where
  "near s s' = (next_jid s' = next_jid s \<or> next_jid s' = int_incr (next_jid s))"

definition after :: "shell \<Rightarrow> shell run \<Rightarrow> bool" where
  "after s r = (good r \<and> (case state_of r of Some s' \<Rightarrow> near s s' | None \<Rightarrow> True))"

text \<open>
  Between two states the counter is the same, and every live slot of the second state held
  the same process id and job id in the first: jobs were only deleted or changed state.
\<close>

definition kept :: "shell \<Rightarrow> shell \<Rightarrow> bool" where
  "kept s s' =
     (next_jid s' = next_jid s
      \<and> (\<forall>i<MAX_JOBS. pid (jobs s' ! i) \<noteq> 0 \<longrightarrow>
             pid (jobs s' ! i) = pid (jobs s ! i) \<and> jid (jobs s' ! i) = jid (jobs s ! i)))"

text \<open>
  The same, except that at most one slot \<open>n\<close>, empty before, holds a new job, whose job
  id is the old value of the counter, and the counter was incremented.
\<close>

definition grown :: "shell \<Rightarrow> shell \<Rightarrow> bool" where
  "grown s s' =
     (kept s s'
      \<or> (\<exists>n<MAX_JOBS. pid (jobs s ! n) = 0 \<and> next_jid s' = int_incr (next_jid s)
            \<and> (\<forall>i<MAX_JOBS. pid (jobs s' ! i) \<noteq> 0 \<longrightarrow>
                   (if i = n then jid (jobs s' ! i) = next_jid s
                    else pid (jobs s' ! i) = pid (jobs s ! i)
                       \<and> jid (jobs s' ! i) = jid (jobs s ! i)))))"

text \<open>The counter lies between 1 and \<open>INT_MAX\<close>, every live slot holds a job id between
  1 and the counter, and two live slots differ in their job ids.\<close>

definition jids_ok :: "shell \<Rightarrow> bool" where
  "jids_ok s =
     (1 \<le> next_jid s \<and> next_jid s \<le> INT_MAX
      \<and> (\<forall>i<MAX_JOBS. pid (jobs s ! i) \<noteq> 0 \<longrightarrow>
             1 \<le> jid (jobs s ! i) \<and> jid (jobs s ! i) < next_jid s)
      \<and> (\<forall>i<MAX_JOBS. \<forall>k<MAX_JOBS.
             pid (jobs s ! i) \<noteq> 0 \<and> pid (jobs s ! k) \<noteq> 0 \<and> i \<noteq> k \<longrightarrow>
             jid (jobs s ! i) \<noteq> jid (jobs s ! k)))"

section \<open>Example states\<close>

text \<open>The shell with process id 1 after it has registered the single-stage job
  \<open>sleep 30\<close>, whose process has the id 100, in state \<open>st\<close>.\<close>

definition one_job :: "jstate \<Rightarrow> shell" where
  "one_job st =
     (boot 1 0)\<lparr>jobs := (jobs (boot 1 0))
                   [0 := \<lparr>pid = 100, jid = 1, state = st, cmdline = ''sleep 30'' @ [NL]\<rparr>],
                 next_jid := 2, children := [100]\<rparr>"

text \<open>A table without live job whose slot 0 is marked FG, nothing printed, and
  \<open>SIGCONT\<close> sent to process group 0.\<close>

definition phantom :: "shell \<Rightarrow> bool" where
  "phantom s = (length (jobs s) = MAX_JOBS \<and> (\<forall>i<MAX_JOBS. pid (jobs s ! i) = 0)
      \<and> state (jobs s ! 0) = FG \<and> printed s = [] \<and> killed s = [(0, SIGCONT)])"

text \<open>The shell with process id 1 after the background job \<open>sleep 30 &\<close>, whose process
  has the id 100; and after the background job \<open>sleep 40 &\<close>, with process id 101, as
  well.\<close>

definition one_bg_job :: shell where
  "one_bg_job =
     (boot 1 0)\<lparr>jobs := (jobs (boot 1 0))
                   [0 := \<lparr>pid = 100, jid = 1, state = BG, cmdline = ''sleep 30 &'' @ [NL]\<rparr>],
                 next_jid := 2, children := [100],
                 printed := [Out (''[1] (100) sleep 30 &'' @ [NL, NL])]\<rparr>"

definition two_jobs :: shell where
  "two_jobs =
     (boot 1 0)\<lparr>jobs := (jobs (boot 1 0))
                   [0 := \<lparr>pid = 100, jid = 1, state = BG, cmdline = ''sleep 30 &'' @ [NL]\<rparr>,
                    1 := \<lparr>pid = 101, jid = 2, state = BG, cmdline = ''sleep 40 &'' @ [NL]\<rparr>],
                 next_jid := 3, children := [101, 100],
                 printed := [Out (''[1] (100) sleep 30 &'' @ [NL, NL]),
                             Out (''[2] (101) sleep 40 &'' @ [NL, NL])]\<rparr>"

text \<open>The shell with process id 1 and an empty table when \<open>next_jid\<close> has reached
  \<open>INT_MAX\<close>; then after the background job \<open>sleep 30 &\<close> (process 100), and after
  \<open>sleep 40 &\<close> (process 101) as well.\<close>

definition at_int_max :: shell where
  "at_int_max = (boot 1 0)\<lparr>next_jid := 2147483647\<rparr>"

definition wrap_one :: shell where
  "wrap_one =
     (boot 1 0)\<lparr>jobs := (jobs (boot 1 0))
                   [0 := \<lparr>pid = 100, jid = 2147483647, state = BG, cmdline = ''sleep 30 &'' @ [NL]\<rparr>],
                 next_jid := - 2147483648, children := [100],
                 printed := [Out (''[2147483647] (100) sleep 30 &'' @ [NL, NL])]\<rparr>"

definition wrap_two :: shell where
  "wrap_two =
     (boot 1 0)\<lparr>jobs := (jobs (boot 1 0))
                   [0 := \<lparr>pid = 100, jid = 2147483647, state = BG, cmdline = ''sleep 30 &'' @ [NL]\<rparr>,
                    1 := \<lparr>pid = 101, jid = - 2147483648, state = BG, cmdline = ''sleep 40 &'' @ [NL]\<rparr>],
                 next_jid := - 2147483647, children := [101, 100],
                 printed := [Out (''[2147483647] (100) sleep 30 &'' @ [NL, NL]),
                             Out (''[-2147483648] (101) sleep 40 &'' @ [NL, NL])]\<rparr>"

section \<open>The job table: searching\<close>

lemma find_job_Some:
  "find_job P js i = Some k \<Longrightarrow>
     i \<le> k \<and> k < MAX_JOBS \<and> P (js ! k) \<and> (\<forall>m. i \<le> m \<and> m < k \<longrightarrow> \<not> P (js ! m))"
proof (induction P js i rule: find_job.induct)
  case (1 P js i)
  show ?case
  proof (cases "i < MAX_JOBS")
    case False
    with "1.prems" show ?thesis by (simp add: find_job.simps)
  next
    case True
    show ?thesis
    proof (cases "P (js ! i)")
      case True
      with \<open>i < MAX_JOBS\<close> "1.prems" show ?thesis by (auto simp: find_job.simps)
    next
      case False
      with True "1.prems" have "find_job P js (i + 1) = Some k"
        by (simp add: find_job.simps)
      with "1.IH" True False
      have k: "i + 1 \<le> k \<and> k < MAX_JOBS \<and> P (js ! k) \<and> (\<forall>m. i + 1 \<le> m \<and> m < k \<longrightarrow> \<not> P (js ! m))"
        by simp
      have "\<not> P (js ! m)" if "i \<le> m" "m < k" for m
        using that k False by (cases "m = i") auto
      with k show ?thesis by auto
    qed
  qed
qed

lemma find_job_None:
  "find_job P js i = None \<Longrightarrow> i \<le> m \<Longrightarrow> m < MAX_JOBS \<Longrightarrow> \<not> P (js ! m)"
proof (induction P js i rule: find_job.induct)
  case (1 P js i)
  from "1.prems" have i: "i < MAX_JOBS" by simp
  from "1.prems"(1) i have n: "\<not> P (js ! i)" and r: "find_job P js (i + 1) = None"
    by (auto simp: find_job.simps[of P js i] split: if_splits)
  show ?case
  proof (cases "m = i")
    case True
    with n show ?thesis by simp
  next
    case False
    with "1.prems" have "i + 1 \<le> m" by simp
    from "1.IH"[OF i n r this \<open>m < MAX_JOBS\<close>] show ?thesis .
  qed
qed

lemma find_job_first:
  "k < MAX_JOBS \<Longrightarrow> P (js ! k) \<Longrightarrow> \<forall>m<k. \<not> P (js ! m) \<Longrightarrow> find_job P js 0 = Some k"
proof (cases "find_job P js 0")
  case None
  assume "k < MAX_JOBS" "P (js ! k)"
  with find_job_None[OF None, of k] show ?thesis by simp
next
  case (Some k')
  assume a: "k < MAX_JOBS" "P (js ! k)" "\<forall>m<k. \<not> P (js ! m)"
  from find_job_Some[OF Some] have b: "k' < MAX_JOBS" "P (js ! k')" "\<forall>m<k'. \<not> P (js ! m)"
    by auto
  from a b have "k' = k" by (metis linorder_neqE_nat)
  with Some show ?thesis by simp
qed

lemma find_job_absent:
  "\<forall>m<MAX_JOBS. \<not> P (js ! m) \<Longrightarrow> find_job P js 0 = None"
proof (cases "find_job P js 0")
  case (Some k)
  assume "\<forall>m<MAX_JOBS. \<not> P (js ! m)"
  with find_job_Some[OF Some] show ?thesis by auto
qed simp

lemma job_all_fields:
  "j\<lparr>pid := p, state := st, jid := k, cmdline := cl\<rparr> =
   \<lparr>pid = p, jid = k, state = st, cmdline = cl\<rparr>"
  by (cases j) simp

lemma boot_jobs: "jobs (boot self modes) = replicate MAX_JOBS empty_job"
  by (simp add: boot_def initjobs_def clearjob_def empty_job_def)

section \<open>Adding and deleting jobs\<close>

text \<open>
  C5 (as stated, refuted). The claim reads: for every call of the add operation,
  when at least one Undefined slot exists the call succeeds. \<open>addjob\<close> first tests
  \<open>pid < 1\<close>: in the freshly booted shell, whose slot 0 is Undefined, the call with
  pid 0 (what \<open>process_pipeline\<close> passes for the line \<open>|\<close>, which has no stage)
  returns 0 and changes nothing.
\<close>

theorem addjob_needs_pid_counterexample:
  "state (jobs (boot 1 0) ! 0) = UNDEF \<and> pid (jobs (boot 1 0) ! 0) = 0
   \<and> addjob 0 FG (''|'' @ [NL]) (boot 1 0) = (0, boot 1 0)"
  by (simp add: boot_jobs addjob_def empty_job_def MAX_JOBS_def)

text \<open>
  C5 (amended). For every call of \<open>addjob\<close> with a pid of at least 1 on a table of
  \<open>MAX_JOBS\<close> slots: when a slot is empty (its \<open>pid\<close> is 0, which is how the code
  recognises an unused slot), the first such slot receives the given pid, state and
  command line and the current \<open>next_jid\<close>, the counter is incremented
  (\<open>next_jid++\<close>: by one, and from \<open>INT_MAX\<close> to \<open>INT_MIN\<close>) and the call
  returns 1; when all 16 slots are occupied, the call returns 0 and the table and the
  counter are unchanged.
\<close>

theorem addjob_first_free:
  assumes "length (jobs s) = MAX_JOBS" and "1 \<le> p"
  shows "(\<forall>i<MAX_JOBS. pid (jobs s ! i) = 0 \<and> (\<forall>m<i. pid (jobs s ! m) \<noteq> 0) \<longrightarrow>
            addjob p st cl s =
              (1, s\<lparr>jobs := (jobs s)[i := \<lparr>pid = p, jid = next_jid s, state = st, cmdline = cl\<rparr>],
                     next_jid := (if next_jid s = INT_MAX then INT_MIN else next_jid s + 1)\<rparr>))
         \<and> ((\<forall>i<MAX_JOBS. pid (jobs s ! i) \<noteq> 0) \<longrightarrow> addjob p st cl s = (0, s))"
proof (intro conjI allI impI)
  fix i
  assume "i < MAX_JOBS" and "pid (jobs s ! i) = 0 \<and> (\<forall>m<i. pid (jobs s ! m) \<noteq> 0)"
  then have "find_job (\<lambda>j. pid j = 0) (jobs s) 0 = Some i"
    by (intro find_job_first) auto
  with assms show "addjob p st cl s =
              (1, s\<lparr>jobs := (jobs s)[i := \<lparr>pid = p, jid = next_jid s, state = st, cmdline = cl\<rparr>],
                     next_jid := (if next_jid s = INT_MAX then INT_MIN else next_jid s + 1)\<rparr>)"
    by (simp add: addjob_def job_all_fields int_incr_def)
next
  assume "\<forall>i<MAX_JOBS. pid (jobs s ! i) \<noteq> 0"
  then have "find_job (\<lambda>j. pid j = 0) (jobs s) 0 = None"
    by (intro find_job_absent) auto
  with assms show "addjob p st cl s = (0, s)"
    by (simp add: addjob_def)
qed

theorem addjob_first_free_witness:
  "length (jobs (boot 1 0)) = MAX_JOBS \<and> (1::int) \<le> 7
   \<and> addjob 7 BG ''sleep 30 &'' (boot 1 0) =
       (1, (boot 1 0)\<lparr>jobs := (jobs (boot 1 0))[0 := \<lparr>pid = 7, jid = 1, state = BG, cmdline = ''sleep 30 &''\<rparr>],
                       next_jid := 2\<rparr>)"
proof -
  have l: "length (jobs (boot 1 0)) = MAX_JOBS" by (simp add: boot_jobs)
  have f: "pid (jobs (boot 1 0) ! 0) = 0" by (simp add: boot_jobs empty_job_def MAX_JOBS_def)
  have n: "next_jid (boot 1 0) = 1" by (simp add: boot_def)
  from addjob_first_free[OF l, of 7 BG "''sleep 30 &''"] f n l show ?thesis
    by (simp add: MAX_JOBS_def INT_MAX_def)
qed

text \<open>
  C10. For every pid below 1, \<open>addjob\<close> and \<open>deletejob\<close> return 0 and leave the
  whole state, so every slot and the jid counter, unchanged; \<open>deletejob 0\<close> does not
  touch an empty slot although empty slots hold pid 0.
\<close>

theorem add_delete_reject_nonpositive:
  "p < 1 \<Longrightarrow> addjob p st cl s = (0, s) \<and> deletejob p s = (0, s)"
  by (simp add: addjob_def deletejob_def)

theorem add_delete_reject_nonpositive_witness:
  "(0::int) < 1 \<and> pid (jobs (boot 1 0) ! 0) = 0
   \<and> addjob 0 FG ''x'' (boot 1 0) = (0, boot 1 0) \<and> deletejob 0 (boot 1 0) = (0, boot 1 0)"
  using add_delete_reject_nonpositive[of 0 FG "''x''" "boot 1 0"]
  by (simp add: boot_jobs empty_job_def MAX_JOBS_def)

section \<open>The redirection loop\<close>





lemma redirect_loop_keep:
  assumes "i < length args" and "\<not> is_redirect (args ! i)"
  shows "redirect_loop fs i args fin fout = redirect_loop fs (i + 1) args fin fout"
  using assms unfolding is_redirect_def
  by (subst redirect_loop.simps) auto


lemma redirect_loop_end:
  "\<not> i < length args \<Longrightarrow> redirect_loop fs i args fin fout = (0, args, fin, fout, [])"
  by (subst redirect_loop.simps) auto



lemma redirect_loop_plain:
  "list_all (\<lambda>a. \<not> is_redirect a) (drop i args) \<Longrightarrow>
   redirect_loop fs i args fin fout = (0, args, fin, fout, [])"
proof (induction "length args - i" arbitrary: i)
  case 0
  then show ?case by (simp add: redirect_loop_end)
next
  case (Suc n)
  then have i: "i < length args" by simp
  then have d: "drop i args = args ! i # drop (Suc i) args"
    by (simp add: Cons_nth_drop_Suc)
  with Suc.prems have a: "\<not> is_redirect (args ! i)"
    and b: "list_all (\<lambda>a. \<not> is_redirect a) (drop (i + 1) args)" by auto
  from Suc.hyps(2) have "n = length args - (i + 1)" by simp
  from Suc.hyps(1)[OF this b] i a show ?case by (simp add: redirect_loop_keep)
qed




section \<open>The words of a stage\<close>

lemma tok_loop_take:
  "tok_loop limit delim i (strtok delim s) = take (limit - i) (strtok_all delim s)"
proof (induction "limit - i" arbitrary: i s)
  case 0
  then show ?case
    by (cases "strtok delim s") (auto simp: tok_loop.simps[of limit delim i])
next
  case (Suc n)
  then have i: "i < limit" and n: "n = limit - (i + 1)" by auto
  show ?case
  proof (cases "strtok delim s")
    case None
    then show ?thesis
      by (simp add: tok_loop.simps[of limit delim i] strtok_all.simps[of delim s])
  next
    case (Some tr)
    obtain t rest where tr: "tr = (t, rest)" by (cases tr)
    from Suc.hyps(1)[OF n, of rest] Some tr i Suc.hyps(2) show ?thesis
      by (simp add: tok_loop.simps[of limit delim i] strtok_all.simps[of delim s]
            take_Cons')
  qed
qed

lemma stage_args_take: "stage_args seg = take (MAX_ARGS - 1) (strtok_all blanks seg)"
  using tok_loop_take[of "MAX_ARGS - 1" blanks 0 seg] by (simp add: stage_args_def)

lemma strtok_word:
  "strtok blanks (CHR ''a'' # CHR '' '' # s) = Some (''a'', s)"
  by (simp add: strtok_def blanks_def)

lemma strtok_all_words:
  "strtok_all blanks (concat (replicate n ''a '')) = replicate n ''a''"
proof (induction n)
  case 0
  show ?case by (simp add: strtok_all.simps[of blanks "[]"] strtok_def)
next
  case (Suc n)
  have "strtok_all blanks (concat (replicate (Suc n) ''a '')) =
        ''a'' # strtok_all blanks (concat (replicate n ''a ''))"
    by (subst strtok_all.simps) (simp add: strtok_word)
  with Suc show ?case by simp
qed

text \<open>
  C9 (as stated, refuted). The claim reads: a stage of exactly 64 words is parsed in
  full and all 64 words appear in the argv passed to program lookup. The loop of
  \<open>parse_and_execute_stage\<close> runs while \<open>i < MAX_ARGS - 1\<close>: of the 64 words
  \<open>a a ... a\<close> the child passes 63 to \<open>execvp\<close>.
\<close>

theorem stage_of_64_words_counterexample:
  "length (strtok_all blanks (concat (replicate 64 ''a ''))) = 64
   \<and> parse_and_execute_stage (\<lambda>c. True) (concat (replicate 64 ''a '')) None None Inherited Inherited
       = Execvp (replicate 63 ''a'') Inherited Inherited"
proof -
  have a: "stage_args (concat (replicate 64 ''a '')) = replicate 63 ''a''"
    by (simp add: stage_args_take strtok_all_words MAX_ARGS_def)
  have b: "list_all (\<lambda>a. \<not> is_redirect a) (replicate 63 ''a'')"
    by (simp add: list_all_iff is_redirect_def)
  from a b show ?thesis
    by (simp add: strtok_all_words parse_and_execute_stage_def handle_redirections_def
          redirect_loop_plain)
qed

text \<open>
  C9 (amended). Each pipeline stage accepts up to 63 whitespace-delimited words: the
  words \<open>parse_and_execute_stage\<close> collects are the first 63 of the stage, so a
  stage of at most 63 words is parsed in full, and when none of the collected words
  is a redirection token they are, unchanged, the argv passed to \<open>execvp\<close>.
\<close>

theorem stage_keeps_63_words:
  "stage_args seg = take 63 (strtok_all blanks seg)
   \<and> (length (strtok_all blanks seg) \<le> 63 \<longrightarrow> stage_args seg = strtok_all blanks seg)
   \<and> (stage_args seg \<noteq> [] \<and> list_all (\<lambda>a. \<not> is_redirect a) (stage_args seg) \<longrightarrow>
        parse_and_execute_stage fs seg None None cin cout = Execvp (stage_args seg) cin cout)"
  by (simp add: stage_args_take MAX_ARGS_def parse_and_execute_stage_def
        handle_redirections_def redirect_loop_plain)

theorem stage_keeps_63_words_witness:
  "length (strtok_all blanks ''ls -l /tmp'') \<le> 63
   \<and> stage_args ''ls -l /tmp'' = [''ls'', ''-l'', ''/tmp'']
   \<and> parse_and_execute_stage (\<lambda>c. True) ''ls -l /tmp'' None None Inherited Inherited
       = Execvp [''ls'', ''-l'', ''/tmp''] Inherited Inherited"
proof -
  have a: "strtok_all blanks ''ls -l /tmp'' = [''ls'', ''-l'', ''/tmp'']"
    by code_simp
  from stage_keeps_63_words[of "''ls -l /tmp''" "\<lambda>c. True" Inherited Inherited] a
  show ?thesis by (simp add: is_redirect_def)
qed

section \<open>Redirections of a stage\<close>



section \<open>The reaper\<close>

lemma clearjob_empty: "clearjob j = empty_job"
  by (cases j) (simp add: clearjob_def empty_job_def)

lemma sigchld_handler_rule:
  assumes "I s"
    and "\<And>s p w s'. I s \<Longrightarrow> waitpid s = (p, w, s') \<Longrightarrow> 0 < p \<Longrightarrow> I (reap p w s')"
    and "\<And>s p w s'. I s \<Longrightarrow> waitpid s = (p, w, s') \<Longrightarrow> \<not> 0 < p \<Longrightarrow> I s'"
  shows "I (sigchld_handler s)"
  using assms(1)
proof (induction s rule: sigchld_handler.induct)
  case (1 s)
  obtain p w s' where w: "waitpid s = (p, w, s')" by (metis prod_cases3)
  show ?case
  proof (cases "0 < p")
    case True
    from assms(2)[OF "1.prems" w True] have "I (reap p w s')" .
    from "1.IH"[OF w[symmetric] refl True this] w True show ?thesis
      by (simp add: sigchld_handler.simps[of s])
  next
    case False
    from assms(3)[OF "1.prems" w False] w False show ?thesis
      by (simp add: sigchld_handler.simps[of s])
  qed
qed

lemma waitpid_cons:
  "pending s = (p, w) # rest \<Longrightarrow>
   waitpid s = (p, w, s\<lparr>pending := rest,
       children := (case w of Stopped n \<Rightarrow> children s | _ \<Rightarrow> removeAll p (children s))\<rparr>)"
  by (simp add: waitpid_def)

lemma waitpid_nil: "pending s = [] \<Longrightarrow> fst (waitpid s) \<le> 0 \<and> snd (snd (waitpid s)) = s"
  by (simp add: waitpid_def)

lemma handler_nil: "pending s = [] \<Longrightarrow> sigchld_handler s = s"
  using waitpid_nil[of s]
  by (cases "waitpid s") (auto simp: sigchld_handler.simps[of s])

lemma reap_pending [simp]: "pending (reap p w s) = pending s"
  by (auto simp: reap_def deletejob_def printf_def split: wstatus.splits option.splits)

lemma handler_drains:
  "list_all (\<lambda>e. 0 < fst e) (pending s) \<Longrightarrow> pending (sigchld_handler s) = []"
proof (induction s rule: sigchld_handler.induct)
  case (1 s)
  show ?case
  proof (cases "pending s")
    case Nil
    then show ?thesis by (simp add: handler_nil)
  next
    case (Cons e rest)
    obtain p w where e: "e = (p, w)" by (cases e)
    with Cons "1.prems" have p: "0 < p" and r: "list_all (\<lambda>e. 0 < fst e) rest" by auto
    let ?s' = "s\<lparr>pending := rest,
       children := (case w of Stopped n \<Rightarrow> children s | _ \<Rightarrow> removeAll p (children s))\<rparr>"
    from Cons e have w: "waitpid s = (p, w, ?s')" by (simp add: waitpid_cons)
    from r have "list_all (\<lambda>e. 0 < fst e) (pending (reap p w ?s'))" by simp
    from "1.IH"[OF w[symmetric] refl p this] w p show ?thesis
      by (simp add: sigchld_handler.simps[of s])
  qed
qed

lemma reap_frame [simp]:
  "shell_pgid (reap p w s) = shell_pgid s" "shell_tmodes (reap p w s) = shell_tmodes s"
  "tty_pgrp (reap p w s) = tty_pgrp s" "tty_modes (reap p w s) = tty_modes s"
  "sigchld_blocked (reap p w s) = sigchld_blocked s" "next_jid (reap p w s) = next_jid s"
  "children (reap p w s) = children s" "open_fds (reap p w s) = open_fds s"
  "killed (reap p w s) = killed s" "length (jobs (reap p w s)) = length (jobs s)"
  by (auto simp: reap_def deletejob_def printf_def split: wstatus.splits option.splits)

lemma waitpid_frame:
  "waitpid s = (p, w, s') \<Longrightarrow>
     shell_pgid s' = shell_pgid s \<and> shell_tmodes s' = shell_tmodes s \<and> tty_pgrp s' = tty_pgrp s
   \<and> tty_modes s' = tty_modes s \<and> sigchld_blocked s' = sigchld_blocked s
   \<and> next_jid s' = next_jid s \<and> open_fds s' = open_fds s \<and> killed s' = killed s
   \<and> jobs s' = jobs s \<and> printed s' = printed s \<and> set (children s') \<subseteq> set (children s)"
  by (auto simp: waitpid_def split: list.splits wstatus.splits)

lemma handler_frame:
  "shell_pgid (sigchld_handler s) = shell_pgid s \<and> shell_tmodes (sigchld_handler s) = shell_tmodes s
   \<and> tty_pgrp (sigchld_handler s) = tty_pgrp s \<and> tty_modes (sigchld_handler s) = tty_modes s
   \<and> sigchld_blocked (sigchld_handler s) = sigchld_blocked s
   \<and> next_jid (sigchld_handler s) = next_jid s \<and> open_fds (sigchld_handler s) = open_fds s
   \<and> killed (sigchld_handler s) = killed s
   \<and> length (jobs (sigchld_handler s)) = length (jobs s)"
  by (rule sigchld_handler_rule[where s = s]) (auto dest!: waitpid_frame)

lemma kernel_event_frame:
  "shell_pgid (kernel_event e s) = shell_pgid s \<and> shell_tmodes (kernel_event e s) = shell_tmodes s
   \<and> tty_pgrp (kernel_event e s) = tty_pgrp s
   \<and> sigchld_blocked (kernel_event e s) = sigchld_blocked s
   \<and> next_jid (kernel_event e s) = next_jid s \<and> open_fds (kernel_event e s) = open_fds s
   \<and> killed (kernel_event e s) = killed s
   \<and> length (jobs (kernel_event e s)) = length (jobs s)
   \<and> tty_modes (kernel_event e s) = (case e of TtyModes m \<Rightarrow> m | _ \<Rightarrow> tty_modes s)"
  using handler_frame[of "s\<lparr>pending := pending s @ [(p, w)]\<rparr>" for p w]
  by (cases e) (simp_all add: kernel_event_def Let_def)


text \<open>
  C4. For every child event the reaper takes from \<open>waitpid\<close> (a positive pid \<open>p\<close>
  with its status): the handler goes on with the remaining events from a state in
  which, for an exit or a death by signal, the first slot whose pid is \<open>p\<close> (by C6
  the only one: the job whose pgid is \<open>p\<close>) is cleared and nothing is printed; for a
  stop, that slot's state is ST and the line
  \<open>Job [jid] (pgid) stopped by signal n\<close> is printed; and when no slot has pid
  \<open>p\<close> (a process that leads no job) the table and the output are unchanged. The
  handler never blocks: it is total, returns at once when nothing is pending, and
  when it returns no event is pending.
\<close>

theorem reaper_events:
  "(pending s = (p, w) # rest \<and> 0 < p \<and> length (jobs s) = MAX_JOBS \<longrightarrow>
      (\<exists>s1. sigchld_handler s = sigchld_handler s1 \<and> pending s1 = rest
          \<and> next_jid s1 = next_jid s
          \<and> (\<forall>i<MAX_JOBS. pid (jobs s ! i) = p \<and> (\<forall>m<i. pid (jobs s ! m) \<noteq> p) \<longrightarrow>
                jobs s1 = (jobs s)[i := (case w of Stopped n \<Rightarrow> (jobs s ! i)\<lparr>state := ST\<rparr>
                                          | _ \<Rightarrow> empty_job)]
              \<and> printed s1 = printed s @
                  (case w of
                     Stopped n \<Rightarrow>
                       [Out (''Job ['' @ show_int (jid (jobs s ! i)) @ ''] ('' @ show_int p
                             @ '') stopped by signal '' @ show_int n @ [NL])]
                   | _ \<Rightarrow> []))
          \<and> ((\<forall>i<MAX_JOBS. pid (jobs s ! i) \<noteq> p) \<longrightarrow>
                jobs s1 = jobs s \<and> printed s1 = printed s)))
   \<and> (list_all (\<lambda>e. 0 < fst e) (pending s) \<longrightarrow> pending (sigchld_handler s) = [])
   \<and> (pending s = [] \<longrightarrow> sigchld_handler s = s)"
proof (intro conjI impI)
  assume a: "pending s = (p, w) # rest \<and> 0 < p \<and> length (jobs s) = MAX_JOBS"
  let ?s' = "s\<lparr>pending := rest,
       children := (case w of Stopped n \<Rightarrow> children s | _ \<Rightarrow> removeAll p (children s))\<rparr>"
  let ?s1 = "reap p w ?s'"
  from a have w: "waitpid s = (p, w, ?s')" by (simp add: waitpid_cons)
  with a have 1: "sigchld_handler s = sigchld_handler ?s1"
    by (simp add: sigchld_handler.simps[of s])
  have 2: "pending ?s1 = rest" by simp
  have 3: "next_jid ?s1 = next_jid s"
    by (auto simp: reap_def deletejob_def printf_def split: wstatus.splits option.splits)
  have 4: "jobs ?s1 = (jobs s)[i := (case w of Stopped n \<Rightarrow> (jobs s ! i)\<lparr>state := ST\<rparr>
                                          | _ \<Rightarrow> empty_job)]
              \<and> printed ?s1 = printed s @
                  (case w of
                     Stopped n \<Rightarrow>
                       [Out (''Job ['' @ show_int (jid (jobs s ! i)) @ ''] ('' @ show_int p
                             @ '') stopped by signal '' @ show_int n @ [NL])]
                   | _ \<Rightarrow> [])"
    if "i < MAX_JOBS" "pid (jobs s ! i) = p \<and> (\<forall>m<i. pid (jobs s ! m) \<noteq> p)" for i
  proof -
    from that have "find_job (\<lambda>j. pid j = p) (jobs s) 0 = Some i"
      by (intro find_job_first) auto
    with a that show ?thesis
      by (cases w) (auto simp: reap_def deletejob_def getjobpid_def printf_def clearjob_empty)
  qed
  have 5: "jobs ?s1 = jobs s \<and> printed ?s1 = printed s"
    if "\<forall>i<MAX_JOBS. pid (jobs s ! i) \<noteq> p"
  proof -
    from that have "find_job (\<lambda>j. pid j = p) (jobs s) 0 = None"
      by (intro find_job_absent) auto
    then show ?thesis
      by (cases w) (auto simp: reap_def deletejob_def getjobpid_def)
  qed
  from 1 2 3 4 5
  show "\<exists>s1. sigchld_handler s = sigchld_handler s1 \<and> pending s1 = rest
          \<and> next_jid s1 = next_jid s
          \<and> (\<forall>i<MAX_JOBS. pid (jobs s ! i) = p \<and> (\<forall>m<i. pid (jobs s ! m) \<noteq> p) \<longrightarrow>
                jobs s1 = (jobs s)[i := (case w of Stopped n \<Rightarrow> (jobs s ! i)\<lparr>state := ST\<rparr>
                                          | _ \<Rightarrow> empty_job)]
              \<and> printed s1 = printed s @
                  (case w of
                     Stopped n \<Rightarrow>
                       [Out (''Job ['' @ show_int (jid (jobs s ! i)) @ ''] ('' @ show_int p
                             @ '') stopped by signal '' @ show_int n @ [NL])]
                   | _ \<Rightarrow> []))
          \<and> ((\<forall>i<MAX_JOBS. pid (jobs s ! i) \<noteq> p) \<longrightarrow>
                jobs s1 = jobs s \<and> printed s1 = printed s)"
    by (intro exI[of _ ?s1] conjI allI impI) (assumption | blast)+
next
  assume "list_all (\<lambda>e. 0 < fst e) (pending s)"
  then show "pending (sigchld_handler s) = []" by (rule handler_drains)
next
  assume "pending s = []"
  then show "sigchld_handler s = s" by (rule handler_nil)
qed

theorem reaper_events_witness:
  "pending ((one_job FG)\<lparr>pending := [(100, Stopped 20)]\<rparr>) = (100, Stopped 20) # []
   \<and> (0::int) < 100
   \<and> length (jobs ((one_job FG)\<lparr>pending := [(100, Stopped 20)]\<rparr>)) = MAX_JOBS
   \<and> jobs (sigchld_handler ((one_job FG)\<lparr>pending := [(100, Stopped 20)]\<rparr>)) = jobs (one_job ST)
   \<and> printed (sigchld_handler ((one_job FG)\<lparr>pending := [(100, Stopped 20)]\<rparr>))
       = [Out (''Job [1] (100) stopped by signal 20'' @ [NL])]
   \<and> pending (sigchld_handler ((one_job FG)\<lparr>pending := [(100, Stopped 20)]\<rparr>)) = []"
proof -
  let ?s0 = "(one_job FG)\<lparr>pending := [(100, Stopped 20)]\<rparr>"
  have h: "pending ?s0 = (100, Stopped 20) # [] \<and> (0::int) < 100 \<and> length (jobs ?s0) = MAX_JOBS"
    by (simp add: one_job_def boot_jobs)
  have f: "pid (jobs ?s0 ! 0) = 100 \<and> (\<forall>m<0. pid (jobs ?s0 ! m) \<noteq> 100)"
    by (simp add: one_job_def boot_jobs MAX_JOBS_def)
  from reaper_events[of ?s0 100 "Stopped 20" "[]", THEN conjunct1, THEN mp, OF h]
  obtain s1 where 1: "sigchld_handler ?s0 = sigchld_handler s1" "pending s1 = []"
    and 2: "\<forall>i<MAX_JOBS. pid (jobs ?s0 ! i) = 100 \<and> (\<forall>m<i. pid (jobs ?s0 ! m) \<noteq> 100) \<longrightarrow>
                jobs s1 = (jobs ?s0)[i := (case Stopped 20 of Stopped n \<Rightarrow> (jobs ?s0 ! i)\<lparr>state := ST\<rparr>
                                          | _ \<Rightarrow> empty_job)]
              \<and> printed s1 = printed ?s0 @
                  (case Stopped 20 of
                     Stopped n \<Rightarrow>
                       [Out (''Job ['' @ show_int (jid (jobs ?s0 ! i)) @ ''] ('' @ show_int 100
                             @ '') stopped by signal '' @ show_int n @ [NL])]
                   | _ \<Rightarrow> [])"
    by blast
  from reaper_events[of s1, THEN conjunct2, THEN conjunct2, THEN mp, OF 1(2)] 1
  have e: "sigchld_handler ?s0 = s1" by simp
  have "(0::nat) < MAX_JOBS" by (simp add: MAX_JOBS_def)
  from 2[rule_format, OF this f]
  have "jobs s1 = jobs (one_job ST)
      \<and> printed s1 = [Out (''Job [1] (100) stopped by signal 20'' @ [NL])]"
    by (simp add: one_job_def boot_jobs MAX_JOBS_def show_int_def show_digits.simps)
       (simp add: boot_def)
  with e 1(2) h show ?thesis by simp
qed

section \<open>The foreground controller returns\<close>

lemma waitfg_loop_returns:
  "waitfg_loop evs job p s = Returns s' \<Longrightarrow>
     shell_pgid s' = shell_pgid s \<and> shell_tmodes s' = shell_tmodes s \<and> \<not> waiting job p s'
   \<and> (tty_modes s' = tty_modes s \<or> TtyModes (tty_modes s') \<in> set evs)"
proof (induction evs arbitrary: s)
  case Nil
  then show ?case by (simp split: if_splits)
next
  case (Cons e evs)
  show ?case
  proof (cases "waiting job p s")
    case False
    with Cons.prems show ?thesis by simp
  next
    case True
    with Cons.prems have "waitfg_loop evs job p (kernel_event e s) = Returns s'" by simp
    from Cons.IH[OF this] kernel_event_frame[of e s] show ?thesis
      by (cases e) auto
  qed
qed

text \<open>
  C3 (as stated, refuted). The claim reads: whenever \<open>waitfg\<close> returns, the
  terminal's foreground group is the shell's again and the terminal modes saved at
  bootstrap have been restored. \<open>shell_tmodes\<close> is written once, by \<open>tcgetattr\<close> in
  \<open>main\<close>, and never read: there is no \<open>tcsetattr\<close> in the program. The freshly
  booted shell (modes 0 saved) runs \<open>vi\<close> in the foreground; the job sets the
  terminal modes to 7 and exits; \<open>eval\<close> returns with the terminal back in the
  shell's group, the job gone, and the modes still 7.
\<close>

theorem waitfg_keeps_foreign_modes_counterexample:
  "(case eval \<lparr>pipes = [], forks = [Some 100], launch_events = [],
               wait_events = [TtyModes 7, ChildChange 100 (Exited 0)]\<rparr>
            (''vi'' @ [NL]) (boot 1 0) of
      Returns s \<Rightarrow> tty_pgrp s = shell_pgid s \<and> shell_tmodes s = 0 \<and> tty_modes s = 7
                  \<and> list_all (\<lambda>j. pid j = 0) (jobs s)
    | _ \<Rightarrow> False)"
  by code_simp

text \<open>
  C3 (amended). Whenever \<open>waitfg\<close> returns, the awaited slot is absent or no longer
  holds the awaited pid in state FG, the terminal's foreground process group has been
  set back to the shell's pgid, and the saved modes are untouched; the terminal's
  modes are not restored: they are as they were at the call, or as some process set
  them during the wait.
\<close>

theorem waitfg_reclaims_terminal:
  "waitfg evs p s = Returns s' \<Longrightarrow>
     tty_pgrp s' = shell_pgid s' \<and> shell_pgid s' = shell_pgid s
   \<and> shell_tmodes s' = shell_tmodes s
   \<and> \<not> waiting (getjobpid (jobs s) p) p s'
   \<and> (tty_modes s' = tty_modes s \<or> TtyModes (tty_modes s') \<in> set evs)"
proof -
  assume a: "waitfg evs p s = Returns s'"
  let ?s1 = "tcsetpgrp p s"
  from a obtain s2 where l: "waitfg_loop evs (getjobpid (jobs ?s1) p) p ?s1 = Returns s2"
    and s': "s' = tcsetpgrp (shell_pgid s2) s2"
    by (auto simp: waitfg_def Let_def split: run.splits)
  from waitfg_loop_returns[OF l] s' show ?thesis
    by (auto simp: tcsetpgrp_def waiting_def split: option.splits)
qed

theorem waitfg_reclaims_terminal_witness:
  "waitfg [ChildChange 100 (Stopped 20)] 100 (one_job FG)
     = Returns ((one_job ST)\<lparr>printed := [Out (''Job [1] (100) stopped by signal 20'' @ [NL])]\<rparr>)
   \<and> tty_pgrp ((one_job ST)\<lparr>printed := [Out (''Job [1] (100) stopped by signal 20'' @ [NL])]\<rparr>)
       = shell_pgid ((one_job ST)\<lparr>printed := [Out (''Job [1] (100) stopped by signal 20'' @ [NL])]\<rparr>)"
proof -
  have h: "waitfg [ChildChange 100 (Stopped 20)] 100 (one_job FG)
     = Returns ((one_job ST)\<lparr>printed := [Out (''Job [1] (100) stopped by signal 20'' @ [NL])]\<rparr>)"
    by code_simp
  from waitfg_reclaims_terminal[OF h] h show ?thesis by simp
qed

section \<open>A fork that fails\<close>

text \<open>
  C2 (the code departs from the claim). The line \<open>ls | wc\<close> in the freshly booted
  shell, with \<open>pipe\<close> returning the descriptors 3 and 4, the first \<open>fork\<close> the
  child 100 and the second \<open>fork\<close> failing: \<open>process_pipeline\<close> prints the
  diagnostic and returns, the job table unchanged, but with \<open>SIGCHLD\<close> still blocked
  and the read end 3 of the pipe still open. When child 100 exits afterwards the
  handler does not run: the event stays pending.
\<close>

theorem mask_and_pipe_leak_after_failed_fork:
  "process_pipeline \<lparr>pipes = [Some (3, 4)], forks = [Some 100, None], launch_events = [],
                     wait_events = []\<rparr> (''ls | wc'' @ [NL]) False (boot 1 0)
     = Returns ((boot 1 0)\<lparr>sigchld_blocked := True, children := [100], open_fds := [3],
                            printed := [Err ''fork'']\<rparr>)
   \<and> kernel_event (ChildChange 100 (Exited 0))
        ((boot 1 0)\<lparr>sigchld_blocked := True, children := [100], open_fds := [3],
                     printed := [Err ''fork'']\<rparr>)
     = (boot 1 0)\<lparr>sigchld_blocked := True, children := [100], open_fds := [3],
                    printed := [Err ''fork''], pending := [(100, Exited 0)]\<rparr>"
  by code_simp

section \<open>A job specification that does not parse\<close>

lemma reap_no_job:
  "\<forall>i<MAX_JOBS. pid (jobs s ! i) = 0 \<Longrightarrow> 0 < p \<Longrightarrow>
   jobs (reap p w s) = jobs s \<and> printed (reap p w s) = printed s"
proof -
  assume "\<forall>i<MAX_JOBS. pid (jobs s ! i) = 0" "0 < p"
  then have "find_job (\<lambda>j. pid j = p) (jobs s) 0 = None"
    by (intro find_job_absent) auto
  then show ?thesis
    by (cases w) (auto simp: reap_def deletejob_def getjobpid_def)
qed

lemma phantom_handler: "phantom s \<Longrightarrow> phantom (sigchld_handler s)"
proof (rule sigchld_handler_rule[where I = phantom])
  fix s p w s'
  assume a: "phantom s" "waitpid s = (p, w, s')" "0 < p"
  from waitpid_frame[OF a(2)] a(1) have "phantom s'" by (simp add: phantom_def)
  with reap_no_job[of s' p w] a(3) show "phantom (reap p w s')"
    by (simp add: phantom_def)
next
  fix s p w s'
  assume a: "phantom s" "waitpid s = (p, w, s')"
  from waitpid_frame[OF a(2)] a(1) show "phantom s'" by (simp add: phantom_def)
qed

lemma phantom_event: "phantom s \<Longrightarrow> phantom (kernel_event e s)"
proof (cases e)
  case (ChildChange p w)
  assume a: "phantom s"
  then have "phantom (s\<lparr>pending := pending s @ [(p, w)]\<rparr>)" by (simp add: phantom_def)
  with phantom_handler[of "s\<lparr>pending := pending s @ [(p, w)]\<rparr>"] ChildChange show ?thesis
    by (simp add: kernel_event_def Let_def)
next
  case (TtyModes m)
  assume "phantom s"
  with TtyModes show ?thesis by (simp add: kernel_event_def phantom_def)
qed

lemma phantom_waits: "phantom s \<Longrightarrow> \<exists>s'. waitfg_loop evs (Some 0) 0 s = Waits s' \<and> phantom s'"
proof (induction evs arbitrary: s)
  case Nil
  then show ?case by (simp add: waiting_def phantom_def MAX_JOBS_def)
next
  case (Cons e evs)
  from Cons.prems have w: "waiting (Some 0) 0 s" by (simp add: waiting_def phantom_def MAX_JOBS_def)
  from Cons.IH[OF phantom_event[OF Cons.prems, of e]] w show ?case by simp
qed

lemma atoi_abc: "atoi ''abc'' = 0"
  by (simp add: atoi_def strtol_def int_of_long_def LONG_MAX_def LONG_MIN_def isspace_def
        isdigit_def)

lemma boot_find_empty: "find_job (\<lambda>j. pid j = 0) (jobs (boot 1 0)) 0 = Some 0"
  "find_job (\<lambda>j. jid j = 0) (jobs (boot 1 0)) 0 = Some 0"
  by (simp_all add: boot_jobs find_job.simps[of _ _ 0] MAX_JOBS_def empty_job_def)

text \<open>
  C1 (the code departs from the claim). In the freshly booted shell, \<open>fg %abc\<close>:
  \<open>atoi\<close> gives 0, \<open>getjobjid\<close> finds the empty slot 0 (empty slots hold jid 0),
  no diagnostic is printed, \<open>SIGCONT\<close> is sent to process group 0, the slot is marked
  FG, and \<open>waitfg\<close> never returns, whatever events follow. \<open>bg abc\<close> likewise
  resolves to the empty slot through \<open>getjobpid\<close>, sends the signal, marks the slot
  BG and prints \<open>[0] (0)\<close>.
\<close>

theorem bgfg_malformed_spec_takes_empty_slot:
  "(\<exists>s'. do_bgfg evs [''fg'', ''%abc''] (boot 1 0) = Waits s'
         \<and> state (jobs s' ! 0) = FG \<and> killed s' = [(0, SIGCONT)] \<and> printed s' = [])
   \<and> do_bgfg evs [''bg'', ''abc''] (boot 1 0)
       = Returns ((boot 1 0)\<lparr>jobs := (jobs (boot 1 0))[0 := empty_job\<lparr>state := BG\<rparr>],
                             killed := [(0, SIGCONT)],
                             printed := [Out (''[0] (0) '' @ [NL])]\<rparr>)"
proof
  let ?s = "set_state 0 FG (kill 0 SIGCONT (boot 1 0))"
  have p: "phantom (tcsetpgrp 0 ?s)"
  proof -
    have "jobs (tcsetpgrp 0 ?s) = (replicate MAX_JOBS empty_job)[0 := empty_job\<lparr>state := FG\<rparr>]"
      by (simp add: tcsetpgrp_def set_state_def kill_def boot_jobs MAX_JOBS_def)
    moreover have "printed (tcsetpgrp 0 ?s) = []" "killed (tcsetpgrp 0 ?s) = [(0, SIGCONT)]"
      by (simp_all add: tcsetpgrp_def set_state_def kill_def boot_def)
    ultimately show ?thesis
      by (auto simp: phantom_def nth_list_update empty_job_def) (simp add: MAX_JOBS_def)
  qed
  have g: "getjobpid (jobs (tcsetpgrp 0 ?s)) 0 = Some 0"
    by (simp add: getjobpid_def tcsetpgrp_def set_state_def kill_def boot_jobs
          find_job.simps[of _ _ 0] MAX_JOBS_def empty_job_def)
  from phantom_waits[OF p, of evs] obtain s' where
    w: "waitfg_loop evs (Some 0) 0 (tcsetpgrp 0 ?s) = Waits s'" and "phantom s'" by blast
  then have "waitfg evs 0 ?s = Waits s' \<and> state (jobs s' ! 0) = FG
     \<and> killed s' = [(0, SIGCONT)] \<and> printed s' = []"
    by (simp add: waitfg_def g phantom_def)
  moreover have "do_bgfg evs [''fg'', ''%abc''] (boot 1 0) = waitfg evs 0 ?s"
    by (simp add: do_bgfg_def atoi_abc getjobjid_def boot_find_empty Let_def)
       (simp add: kill_def set_state_def boot_jobs empty_job_def MAX_JOBS_def)
  ultimately show "\<exists>s'. do_bgfg evs [''fg'', ''%abc''] (boot 1 0) = Waits s'
         \<and> state (jobs s' ! 0) = FG \<and> killed s' = [(0, SIGCONT)] \<and> printed s' = []"
    by auto
next
  show "do_bgfg evs [''bg'', ''abc''] (boot 1 0)
       = Returns ((boot 1 0)\<lparr>jobs := (jobs (boot 1 0))[0 := empty_job\<lparr>state := BG\<rparr>],
                             killed := [(0, SIGCONT)],
                             printed := [Out (''[0] (0) '' @ [NL])]\<rparr>)"
  proof -
    have j: "jobs (boot 1 0) ! 0 = empty_job" by (simp add: boot_jobs MAX_JOBS_def)
    have k: "killed (boot 1 0) = []" "printed (boot 1 0) = []" by (simp_all add: boot_def)
    show ?thesis
      by (simp add: do_bgfg_def atoi_abc getjobpid_def boot_find_empty Let_def)
         (simp add: kill_def set_state_def printf_def j k empty_job_def show_int_def
            show_digits.simps)
  qed
qed

section \<open>The table invariant under single operations\<close>

lemma table_okI:
  assumes "length (jobs s) = MAX_JOBS"
    and "\<And>i. i < MAX_JOBS \<Longrightarrow> pid (jobs s ! i) \<noteq> 0 \<Longrightarrow>
           1 \<le> pid (jobs s ! i)
           \<and> pid (jobs s ! i) \<in> set (children s)"
    and "\<And>i k. i < MAX_JOBS \<Longrightarrow> k < MAX_JOBS \<Longrightarrow> pid (jobs s ! i) \<noteq> 0 \<Longrightarrow>
           pid (jobs s ! k) \<noteq> 0 \<Longrightarrow> i \<noteq> k \<Longrightarrow>
           pid (jobs s ! i) \<noteq> pid (jobs s ! k)"
  shows "table_ok s"
proof -
  from assms(2) have a: "\<forall>i<MAX_JOBS. pid (jobs s ! i) \<noteq> 0 \<longrightarrow>
             1 \<le> pid (jobs s ! i)
             \<and> pid (jobs s ! i) \<in> set (children s)"
    by (intro allI impI)
  from assms(3) have b: "\<forall>i<MAX_JOBS. \<forall>k<MAX_JOBS.
             pid (jobs s ! i) \<noteq> 0 \<and> pid (jobs s ! k) \<noteq> 0 \<and> i \<noteq> k \<longrightarrow>
             pid (jobs s ! i) \<noteq> pid (jobs s ! k)"
    by (intro allI impI) (elim conjE)
  from assms(1) a b show ?thesis
    unfolding table_ok_def by (intro conjI)
qed

lemma table_ok_length: "table_ok s \<Longrightarrow> length (jobs s) = MAX_JOBS"
  by (simp add: table_ok_def)

lemma table_ok_live:
  "table_ok s \<Longrightarrow> i < MAX_JOBS \<Longrightarrow> pid (jobs s ! i) \<noteq> 0 \<Longrightarrow>
     1 \<le> pid (jobs s ! i)
     \<and> pid (jobs s ! i) \<in> set (children s)"
  unfolding table_ok_def by blast

lemma table_ok_uniq:
  "table_ok s \<Longrightarrow> i < MAX_JOBS \<Longrightarrow> k < MAX_JOBS \<Longrightarrow> pid (jobs s ! i) \<noteq> 0 \<Longrightarrow>
   pid (jobs s ! k) \<noteq> 0 \<Longrightarrow> i \<noteq> k \<Longrightarrow>
     pid (jobs s ! i) \<noteq> pid (jobs s ! k)"
  unfolding table_ok_def by blast

lemma table_ok_same:
  assumes "table_ok s" and "jobs s' = jobs s" and "next_jid s' = next_jid s"
    and "set (children s) \<subseteq> set (children s')"
  shows "table_ok s'"
proof (rule table_okI)
  show "length (jobs s') = MAX_JOBS" using assms by (simp add: table_ok_length)
next
  fix i assume "i < MAX_JOBS" "pid (jobs s' ! i) \<noteq> 0"
  with table_ok_live[OF assms(1), of i] assms(2,3,4)
  show "1 \<le> pid (jobs s' ! i)
           \<and> pid (jobs s' ! i) \<in> set (children s')"
    by auto
next
  fix i k assume "i < MAX_JOBS" "k < MAX_JOBS" "pid (jobs s' ! i) \<noteq> 0"
           "pid (jobs s' ! k) \<noteq> 0" "i \<noteq> k"
  with table_ok_uniq[OF assms(1), of i k] assms(2)
  show "pid (jobs s' ! i) \<noteq> pid (jobs s' ! k)"
    by simp
qed

lemma fg_in_same: "jobs s' = jobs s \<Longrightarrow> fg_in A s' = fg_in A s"
  by (simp add: fg_in_def)

lemma fg_in_weaken: "fg_in A s \<Longrightarrow> (\<And>i q. A i q \<Longrightarrow> B i q) \<Longrightarrow> fg_in B s"
  unfolding fg_in_def by blast

lemma fg_inD:
  "fg_in A s \<Longrightarrow> i < MAX_JOBS \<Longrightarrow> pid (jobs s ! i) \<noteq> 0 \<Longrightarrow> state (jobs s ! i) = FG \<Longrightarrow>
   A i (pid (jobs s ! i))"
  unfolding fg_in_def by blast

lemma set_state_nth:
  "pid ((js[i := (js ! i)\<lparr>state := st\<rparr>]) ! k) = pid (js ! k)"
  "jid ((js[i := (js ! i)\<lparr>state := st\<rparr>]) ! k) = jid (js ! k)"
  by (cases "i < length js"; simp add: nth_list_update list_update_beyond not_less)+

lemma table_ok_set_state:
  "table_ok s \<Longrightarrow> table_ok (s\<lparr>jobs := (jobs s)[i := (jobs s ! i)\<lparr>state := st\<rparr>]\<rparr>)"
  unfolding table_ok_def by (simp add: set_state_nth)

lemma fg_in_set_state:
  assumes "fg_in A s" and "st \<noteq> FG"
  shows "fg_in A (s\<lparr>jobs := (jobs s)[i := (jobs s ! i)\<lparr>state := st\<rparr>]\<rparr>)"
  unfolding fg_in_def
proof (intro allI impI)
  fix k
  let ?js = "(jobs s)[i := (jobs s ! i)\<lparr>state := st\<rparr>]"
  assume k: "k < MAX_JOBS"
    and a: "pid (jobs (s\<lparr>jobs := ?js\<rparr>) ! k) \<noteq> 0 \<and> state (jobs (s\<lparr>jobs := ?js\<rparr>) ! k) = FG"
  have "state (jobs s ! k) = FG"
  proof (cases "k = i \<and> i < length (jobs s)")
    case True
    with a assms(2) show ?thesis by simp
  next
    case False
    with a show ?thesis
      by (cases "i < length (jobs s)") (auto simp: list_update_beyond not_less)
  qed
  with a k fg_inD[OF assms(1), of k] show "A k (pid (jobs (s\<lparr>jobs := ?js\<rparr>) ! k))"
    by (simp add: set_state_nth)
qed

lemma clear_nth:
  "k \<noteq> i \<Longrightarrow> (js[i := clearjob (js ! i)]) ! k = js ! k"
  "i < length js \<Longrightarrow> pid ((js[i := clearjob (js ! i)]) ! i) = 0"
  by (simp_all add: clearjob_def)

lemma table_ok_clear:
  assumes "table_ok s" and "find_job (\<lambda>j. pid j = p) (jobs s) 0 = Some i" and "p \<noteq> 0"
  shows "table_ok (s\<lparr>jobs := (jobs s)[i := clearjob (jobs s ! i)],
                      children := removeAll p (children s)\<rparr>)"
    (is "table_ok ?s'")
proof (rule table_okI)
  from find_job_Some[OF assms(2)] have i: "i < MAX_JOBS" "pid (jobs s ! i) = p" by auto
  from assms(1) have l: "length (jobs s) = MAX_JOBS" by (rule table_ok_length)
  show "length (jobs ?s') = MAX_JOBS" using l by simp
  {
    fix k assume k: "k < MAX_JOBS" "pid (jobs ?s' ! k) \<noteq> 0"
    with i l have ki: "k \<noteq> i" by (auto simp: clearjob_def)
    with k have live: "pid (jobs s ! k) \<noteq> 0" and same: "jobs ?s' ! k = jobs s ! k"
      by (simp_all add: clear_nth)
    from table_ok_uniq[OF assms(1) k(1) i(1) live] i assms(3) ki
    have "pid (jobs s ! k) \<noteq> p" by simp
    with table_ok_live[OF assms(1) k(1) live] same
    show "1 \<le> pid (jobs ?s' ! k)
           \<and> pid (jobs ?s' ! k) \<in> set (children ?s')"
      by simp
  }
  {
    fix k m assume a: "k < MAX_JOBS" "m < MAX_JOBS" "pid (jobs ?s' ! k) \<noteq> 0"
           "pid (jobs ?s' ! m) \<noteq> 0" "k \<noteq> m"
    with i l have "k \<noteq> i" "m \<noteq> i" by (auto simp: clearjob_def)
    with a have "jobs ?s' ! k = jobs s ! k" "jobs ?s' ! m = jobs s ! m"
      by (simp_all add: clear_nth)
    with a table_ok_uniq[OF assms(1), of k m]
    show "pid (jobs ?s' ! k) \<noteq> pid (jobs ?s' ! m)"
      by simp
  }
qed

lemma fg_in_clear:
  assumes "fg_in A s"
  shows "fg_in A (s\<lparr>jobs := (jobs s)[i := clearjob (jobs s ! i)]\<rparr>)"
  unfolding fg_in_def
proof (intro allI impI)
  fix k
  let ?js = "(jobs s)[i := clearjob (jobs s ! i)]"
  assume k: "k < MAX_JOBS"
    and a: "pid (jobs (s\<lparr>jobs := ?js\<rparr>) ! k) \<noteq> 0 \<and> state (jobs (s\<lparr>jobs := ?js\<rparr>) ! k) = FG"
  have "?js ! k = jobs s ! k"
  proof (cases "k = i \<and> i < length (jobs s)")
    case True
    with a show ?thesis by (simp add: clearjob_def)
  next
    case False
    then show ?thesis
      by (cases "i < length (jobs s)") (auto simp: list_update_beyond not_less)
  qed
  with a k fg_inD[OF assms(1), of k] show "A k (pid (jobs (s\<lparr>jobs := ?js\<rparr>) ! k))"
    by simp
qed

lemma table_ok_unknown_exit:
  assumes "table_ok s" and "find_job (\<lambda>j. pid j = p) (jobs s) 0 = None"
  shows "table_ok (s\<lparr>children := removeAll p (children s)\<rparr>)" (is "table_ok ?s'")
proof (rule table_okI)
  show "length (jobs ?s') = MAX_JOBS" using assms(1) by (simp add: table_ok_length)
  {
    fix k assume k: "k < MAX_JOBS" "pid (jobs ?s' ! k) \<noteq> 0"
    from find_job_None[OF assms(2), of k] k have "pid (jobs s ! k) \<noteq> p" by simp
    with table_ok_live[OF assms(1) k(1)] k(2)
    show "1 \<le> pid (jobs ?s' ! k)
           \<and> pid (jobs ?s' ! k) \<in> set (children ?s')"
      by simp
  }
  {
    fix k m assume a: "k < MAX_JOBS" "m < MAX_JOBS" "pid (jobs ?s' ! k) \<noteq> 0"
           "pid (jobs ?s' ! m) \<noteq> 0" "k \<noteq> m"
    with table_ok_uniq[OF assms(1), of k m]
    show "pid (jobs ?s' ! k) \<noteq> pid (jobs ?s' ! m)"
      by simp
  }
qed

lemma fg_in_cong: "jobs s' = jobs s \<Longrightarrow> fg_in A s \<Longrightarrow> fg_in A s'"
  by (simp add: fg_in_def)

lemma reap_inv:
  assumes "table_ok s" and "fg_in A s" and "waitpid s = (p, w, s')" and "0 < p"
  shows "table_ok (reap p w s') \<and> fg_in A (reap p w s')"
proof -
  from assms(3,4) obtain rest where
    s': "s' = s\<lparr>pending := rest,
         children := (case w of Stopped n \<Rightarrow> children s | _ \<Rightarrow> removeAll p (children s))\<rparr>"
    by (auto simp: waitpid_def split: list.splits if_splits)
  show ?thesis
  proof (cases "\<exists>n. w = Stopped n")
    case True
    then obtain n where w: "w = Stopped n" by blast
    show ?thesis
    proof (cases "find_job (\<lambda>j. pid j = p) (jobs s) 0")
      case None
      with w s' have e: "reap p w s' = s\<lparr>pending := rest\<rparr>"
        by (simp add: reap_def getjobpid_def)
      have "table_ok (s\<lparr>pending := rest\<rparr>)" by (rule table_ok_same[OF assms(1)]) simp_all
      moreover have "fg_in A (s\<lparr>pending := rest\<rparr>)" by (rule fg_in_cong[OF _ assms(2)]) simp
      ultimately show ?thesis by (simp only: e)
    next
      case (Some i)
      let ?t = "s\<lparr>jobs := (jobs s)[i := (jobs s ! i)\<lparr>state := ST\<rparr>]\<rparr>"
      from Some w s' have j: "jobs (reap p w s') = jobs ?t" "next_jid (reap p w s') = next_jid ?t"
        "children (reap p w s') = children ?t"
        by (simp_all add: reap_def getjobpid_def printf_def)
      have "table_ok ?t" using assms(1) by (rule table_ok_set_state)
      then have 1: "table_ok (reap p w s')" by (rule table_ok_same) (simp_all only: j subset_refl)
      have "fg_in A ?t" using assms(2) by (rule fg_in_set_state) simp
      then have "fg_in A (reap p w s')" by (rule fg_in_cong[rotated]) (simp only: j)
      with 1 show ?thesis by simp
    qed
  next
    case False
    then have c: "(case w of Stopped n \<Rightarrow> children s | _ \<Rightarrow> removeAll p (children s))
                  = removeAll p (children s)"
      by (cases w) simp_all
    from False have r: "reap p w s' = snd (deletejob p s')"
      by (cases w) (simp_all add: reap_def)
    show ?thesis
    proof (cases "find_job (\<lambda>j. pid j = p) (jobs s) 0")
      case None
      let ?t = "s\<lparr>children := removeAll p (children s)\<rparr>"
      from None s' c r have j: "jobs (reap p w s') = jobs ?t"
        "next_jid (reap p w s') = next_jid ?t" "children (reap p w s') = children ?t"
        by (simp_all add: deletejob_def)
      have "table_ok ?t" using assms(1) None by (rule table_ok_unknown_exit)
      then have 1: "table_ok (reap p w s')" by (rule table_ok_same) (simp_all only: j subset_refl)
      have "fg_in A (reap p w s')" by (rule fg_in_cong[OF _ assms(2)]) (simp add: j(1))
      with 1 show ?thesis by simp
    next
      case (Some i)
      let ?t = "s\<lparr>jobs := (jobs s)[i := clearjob (jobs s ! i)],
                  children := removeAll p (children s)\<rparr>"
      from Some s' c r assms(4) have j: "jobs (reap p w s') = jobs ?t"
        "next_jid (reap p w s') = next_jid ?t" "children (reap p w s') = children ?t"
        by (simp_all add: deletejob_def)
      from assms(4) have "p \<noteq> 0" by simp
      with assms(1) Some have "table_ok ?t" by (rule table_ok_clear)
      then have 1: "table_ok (reap p w s')" by (rule table_ok_same) (simp_all only: j subset_refl)
      have "fg_in A (reap p w s')"
        by (rule fg_in_cong[OF _ fg_in_clear[OF assms(2), of i]]) (simp add: j(1))
      with 1 show ?thesis by simp
    qed
  qed
qed

lemma waitpid_inv:
  assumes "table_ok s" and "fg_in A s" and "waitpid s = (p, w, s')" and "\<not> 0 < p"
  shows "table_ok s' \<and> fg_in A s'"
proof (cases "pending s")
  case Nil
  with assms show ?thesis by (simp add: waitpid_def)
next
  case (Cons e rest)
  with assms(3) have s': "s' = s\<lparr>pending := rest,
         children := (case w of Stopped n \<Rightarrow> children s | _ \<Rightarrow> removeAll p (children s))\<rparr>"
    by (cases e) (auto simp: waitpid_def)
  have f: "fg_in A s'" by (rule fg_in_cong[OF _ assms(2)]) (simp add: s')
  have "table_ok s'"
  proof (rule table_okI)
    show "length (jobs s') = MAX_JOBS" using assms(1) s' by (simp add: table_ok_length)
    {
      fix k assume k: "k < MAX_JOBS" "pid (jobs s' ! k) \<noteq> 0"
      with table_ok_live[OF assms(1), of k] s' have "pid (jobs s ! k) \<noteq> p"
        using assms(4) by auto
      with table_ok_live[OF assms(1), of k] k s'
      show "1 \<le> pid (jobs s' ! k)
           \<and> pid (jobs s' ! k) \<in> set (children s')"
        by (cases w) simp_all
    }
    {
      fix k m assume a: "k < MAX_JOBS" "m < MAX_JOBS" "pid (jobs s' ! k) \<noteq> 0"
           "pid (jobs s' ! m) \<noteq> 0" "k \<noteq> m"
      with table_ok_uniq[OF assms(1), of k m] s'
      show "pid (jobs s' ! k) \<noteq> pid (jobs s' ! m)"
        by simp
    }
  qed
  with f show ?thesis by simp
qed

lemma handler_inv:
  assumes "table_ok s \<and> fg_in A s"
  shows "table_ok (sigchld_handler s) \<and> fg_in A (sigchld_handler s)"
  using assms
proof (rule sigchld_handler_rule[where I = "\<lambda>s. table_ok s \<and> fg_in A s"])
  fix s p w s'
  assume "table_ok s \<and> fg_in A s" "waitpid s = (p, w, s')" "0 < p"
  then show "table_ok (reap p w s') \<and> fg_in A (reap p w s')"
    using reap_inv[of s A p w s'] by simp
next
  fix s p w s'
  assume "table_ok s \<and> fg_in A s" "waitpid s = (p, w, s')" "\<not> 0 < p"
  then show "table_ok s' \<and> fg_in A s'"
    using waitpid_inv[of s A p w s'] by simp
qed

lemma kernel_event_inv:
  assumes "table_ok s" and "fg_in A s"
  shows "table_ok (kernel_event e s) \<and> fg_in A (kernel_event e s)"
proof (cases e)
  case (TtyModes m)
  have "table_ok (s\<lparr>tty_modes := m\<rparr>)" by (rule table_ok_same[OF assms(1)]) simp_all
  moreover have "fg_in A (s\<lparr>tty_modes := m\<rparr>)" by (rule fg_in_cong[OF _ assms(2)]) simp
  ultimately show ?thesis using TtyModes by (simp add: kernel_event_def)
next
  case (ChildChange p w)
  let ?t = "s\<lparr>pending := pending s @ [(p, w)]\<rparr>"
  have "table_ok ?t" by (rule table_ok_same[OF assms(1)]) simp_all
  moreover have "fg_in A ?t" by (rule fg_in_cong[OF _ assms(2)]) simp
  ultimately have t: "table_ok ?t \<and> fg_in A ?t" by simp
  from handler_inv[OF t] t ChildChange show ?thesis
    by (simp add: kernel_event_def Let_def)
qed

lemma handler_counter: "next_jid (sigchld_handler s) = next_jid s"
  using handler_frame[of s] by simp

lemma kernel_event_counter: "next_jid (kernel_event e s) = next_jid s"
  using kernel_event_frame[of e s] by simp

section \<open>The table invariant under launching and waiting\<close>

lemma near_same: "next_jid s' = next_jid s \<Longrightarrow> near s0 s' = near s0 s"
  by (simp add: near_def)

lemma near_refl: "near s s"
  by (simp add: near_def)

lemma afterI_Returns:
  "table_ok s' \<Longrightarrow> fg_in (\<lambda>i q. False) s' \<Longrightarrow> near s s' \<Longrightarrow> after s (Returns s')"
  by (simp add: after_def good_def)

lemma fork_call_forked: "fork_call k i = Some p \<Longrightarrow> p \<in> set (forked k)"
proof -
  assume "fork_call k i = Some p"
  then have "Some p \<in> set (forks k)"
    by (auto simp: fork_call_def split: if_splits) (metis nth_mem)
  then show ?thesis by (force simp: forked_def)
qed

lemma stage_Inl:
  "stage k n i prev leader s = Inl s' \<Longrightarrow>
     jobs s' = jobs s \<and> next_jid s' = next_jid s \<and> children s' = children s
   \<and> sigchld_blocked s' = sigchld_blocked s"
  by (auto simp: stage_def perror_def Let_def close_def
        split: if_splits option.splits prod.splits sum.splits)

lemma stage_Inr:
  "stage k n i prev leader s = Inr (prev', leader', s') \<Longrightarrow>
     jobs s' = jobs s \<and> next_jid s' = next_jid s
   \<and> sigchld_blocked s' = sigchld_blocked s
   \<and> (\<exists>c. fork_call k i = Some c \<and> children s' = c # children s
          \<and> leader' = (if i = 0 then c else leader))"
  by (auto simp: stage_def perror_def Let_def close_def
        split: if_splits option.splits prod.splits sum.splits)

lemma fork_stages_frame:
  "fork_stages k n i prev leader s = r \<Longrightarrow>
     (case r of
        Inl s' \<Rightarrow> jobs s' = jobs s \<and> next_jid s' = next_jid s
                 \<and> set (children s) \<subseteq> set (children s')
                 \<and> sigchld_blocked s' = sigchld_blocked s
      | Inr (l, s') \<Rightarrow> jobs s' = jobs s \<and> next_jid s' = next_jid s
                 \<and> set (children s) \<subseteq> set (children s')
                 \<and> sigchld_blocked s' = sigchld_blocked s
                 \<and> (if i = 0 \<and> 0 < n then fork_call k 0 = Some l \<and> l \<in> set (children s')
                     else l = leader))"
proof (induction k n i prev leader s arbitrary: r rule: fork_stages.induct)
  case (1 k n i prev leader s)
  show ?case
  proof (cases "i < n")
    case False
    with "1.prems" show ?thesis by (auto simp: fork_stages.simps[of k n i])
  next
    case True
    show ?thesis
    proof (cases "stage k n i prev leader s")
      case (Inl s')
      with True "1.prems" have "r = Inl s'" by (simp add: fork_stages.simps[of k n i])
      with stage_Inl[OF Inl] show ?thesis by simp
    next
      case (Inr x)
      obtain prev' leader' s' where x: "x = (prev', leader', s')" by (cases x)
      with Inr True "1.prems" have r: "fork_stages k n (i + 1) prev' leader' s' = r"
        by (simp add: fork_stages.simps[of k n i])
      from stage_Inr[OF Inr[unfolded x]] obtain c where
        s': "jobs s' = jobs s" "next_jid s' = next_jid s"
            "sigchld_blocked s' = sigchld_blocked s"
            "fork_call k i = Some c" "children s' = c # children s"
            "leader' = (if i = 0 then c else leader)"
        by blast
      from "1.IH"[OF True Inr[unfolded x] refl refl r] s' True show ?thesis
        by (cases r) (auto split: prod.splits)
    qed
  qed
qed

lemma addjob_inv:
  assumes "table_ok s" and "fg_in (\<lambda>i q. False) s"
    and "1 \<le> p \<longrightarrow> p \<in> set (children s) \<and> (\<forall>i<MAX_JOBS. pid (jobs s ! i) \<noteq> p)"
  shows "table_ok (snd (addjob p st cl s)) \<and> fg_in (\<lambda>i q. q = p) (snd (addjob p st cl s))
       \<and> (st \<noteq> FG \<longrightarrow> fg_in (\<lambda>i q. False) (snd (addjob p st cl s)))
       \<and> near s (snd (addjob p st cl s))"
proof (cases "1 \<le> p \<and> find_job (\<lambda>j. pid j = 0) (jobs s) 0 \<noteq> None")
  case False
  then have "snd (addjob p st cl s) = s"
    by (auto simp: addjob_def)
  with assms(1,2) show ?thesis
    by (auto intro: fg_in_weaken simp: near_refl)
next
  case True
  then obtain i where f: "find_job (\<lambda>j. pid j = 0) (jobs s) 0 = Some i" and p: "1 \<le> p"
    by auto
  let ?j = "(jobs s ! i)\<lparr>pid := p, state := st, jid := next_jid s, cmdline := cl\<rparr>"
  let ?s' = "s\<lparr>jobs := (jobs s)[i := ?j], next_jid := int_incr (next_jid s)\<rparr>"
  from f p have e: "snd (addjob p st cl s) = ?s'" by (simp add: addjob_def)
  from find_job_Some[OF f] have i: "i < MAX_JOBS" "pid (jobs s ! i) = 0" by auto
  from assms(1) have l: "length (jobs s) = MAX_JOBS" by (rule table_ok_length)
  from assms(3) p have fresh: "p \<in> set (children s)" "\<And>k. k < MAX_JOBS \<Longrightarrow> pid (jobs s ! k) \<noteq> p"
    by auto
  have at_i: "jobs ?s' ! i = ?j" using i l by simp
  have off_i: "jobs ?s' ! k = jobs s ! k" if "k \<noteq> i" for k using that by simp
  have t: "table_ok ?s'"
  proof (rule table_okI)
    show "length (jobs ?s') = MAX_JOBS" using l by simp
    {
      fix k assume k: "k < MAX_JOBS" "pid (jobs ?s' ! k) \<noteq> 0"
      show "1 \<le> pid (jobs ?s' ! k)
           \<and> pid (jobs ?s' ! k) \<in> set (children ?s')"
      proof (cases "k = i")
        case True
        with at_i p fresh(1) show ?thesis by simp
      next
        case False
        with k table_ok_live[OF assms(1), of k] off_i[of k] show ?thesis by simp
      qed
    }
    {
      fix k m assume a: "k < MAX_JOBS" "m < MAX_JOBS" "pid (jobs ?s' ! k) \<noteq> 0"
           "pid (jobs ?s' ! m) \<noteq> 0" "k \<noteq> m"
      show "pid (jobs ?s' ! k) \<noteq> pid (jobs ?s' ! m)"
      proof (cases "k = i")
        case True
        with a have m: "m \<noteq> i" by simp
        with a off_i[of m] have "pid (jobs s ! m) \<noteq> 0" by simp
        with table_ok_live[OF assms(1) a(2)] fresh(2)[OF a(2)] True at_i off_i[OF m]
        show ?thesis by simp
      next
        case False
        note k = this
        show ?thesis
        proof (cases "m = i")
          case True
          from k a off_i[of k] have "pid (jobs s ! k) \<noteq> 0" by simp
          with table_ok_live[OF assms(1) a(1)] fresh(2)[OF a(1)] True at_i off_i[OF k]
          show ?thesis by simp
        next
          case False
          with k a off_i[of k] off_i[of m] table_ok_uniq[OF assms(1), of k m]
          show ?thesis by simp
        qed
      qed
    }
  qed
  have g: "A k (pid (jobs ?s' ! k))"
    if "k < MAX_JOBS" "pid (jobs ?s' ! k) \<noteq> 0 \<and> state (jobs ?s' ! k) = FG"
      and "st = FG \<Longrightarrow> A i p" for k and A :: "nat \<Rightarrow> int \<Rightarrow> bool"
  proof (cases "k = i")
    case True
    with that at_i show ?thesis by simp
  next
    case False
    with that off_i[of k] fg_inD[OF assms(2), of k] show ?thesis by simp
  qed
  have "fg_in (\<lambda>i q. q = p) ?s'"
    unfolding fg_in_def using g[where A = "\<lambda>i q. q = p"] by blast
  moreover have "fg_in (\<lambda>i q. False) ?s'" if "st \<noteq> FG"
    unfolding fg_in_def using g[where A = "\<lambda>i q. False"] that by blast
  moreover have "near s ?s'" by (simp add: near_def)
  ultimately show ?thesis using t e by simp
qed

lemma setmask_inv:
  assumes "table_ok s" and "fg_in A s"
  shows "table_ok (sigprocmask_setmask prev s) \<and> fg_in A (sigprocmask_setmask prev s)
       \<and> next_jid (sigprocmask_setmask prev s) = next_jid s"
proof -
  let ?t = "s\<lparr>sigchld_blocked := prev\<rparr>"
  have "table_ok ?t" by (rule table_ok_same[OF assms(1)]) simp_all
  moreover have "fg_in A ?t" by (rule fg_in_cong[OF _ assms(2)]) simp
  ultimately have t: "table_ok ?t \<and> fg_in A ?t" by simp
  show ?thesis
  proof (cases prev)
    case True
    with t show ?thesis by (simp add: sigprocmask_setmask_def Let_def)
  next
    case False
    with handler_inv[OF t] handler_counter[of ?t] show ?thesis
      by (simp add: sigprocmask_setmask_def Let_def)
  qed
qed

lemma events_blocked:
  "sigchld_blocked s \<Longrightarrow>
     jobs (foldl (\<lambda>s' e. kernel_event e s') s evs) = jobs s
   \<and> next_jid (foldl (\<lambda>s' e. kernel_event e s') s evs) = next_jid s
   \<and> children (foldl (\<lambda>s' e. kernel_event e s') s evs) = children s
   \<and> sigchld_blocked (foldl (\<lambda>s' e. kernel_event e s') s evs)"
proof (induction evs arbitrary: s)
  case Nil
  then show ?case by simp
next
  case (Cons e evs)
  from Cons.prems have b: "jobs (kernel_event e s) = jobs s \<and> next_jid (kernel_event e s) = next_jid s
     \<and> children (kernel_event e s) = children s \<and> sigchld_blocked (kernel_event e s)"
    by (cases e) (simp_all add: kernel_event_def Let_def)
  with Cons.IH[of "kernel_event e s"] show ?case by simp
qed

lemma waitfg_loop_inv:
  assumes "table_ok s" and "fg_in (\<lambda>i q. job = Some i \<and> q = p) s"
  shows "case waitfg_loop evs job p s of
           Returns s' \<Rightarrow> table_ok s' \<and> fg_in (\<lambda>i q. False) s' \<and> next_jid s' = next_jid s
         | Waits s' \<Rightarrow> table_ok s' \<and> fg_in (\<lambda>i q. q = p) s' \<and> next_jid s' = next_jid s
         | _ \<Rightarrow> False"
  using assms
proof (induction evs arbitrary: s)
  case Nil
  show ?case
  proof (cases "waiting job p s")
    case True
    with Nil show ?thesis by (auto intro: fg_in_weaken)
  next
    case False
    have "fg_in (\<lambda>i q. False) s"
      unfolding fg_in_def
    proof (intro allI impI)
      fix i assume "i < MAX_JOBS" "pid (jobs s ! i) \<noteq> 0 \<and> state (jobs s ! i) = FG"
      with fg_inD[OF Nil(2), of i] have "waiting job p s" by (simp add: waiting_def)
      with False show False ..
    qed
    with False Nil show ?thesis by simp
  qed
next
  case (Cons e evs)
  show ?case
  proof (cases "waiting job p s")
    case True
    from kernel_event_inv[OF Cons.prems, of e] Cons.IH[of "kernel_event e s"]
      kernel_event_counter[of e s] True
    show ?thesis by (auto split: run.splits)
  next
    case False
    have "fg_in (\<lambda>i q. False) s"
      unfolding fg_in_def
    proof (intro allI impI)
      fix i assume "i < MAX_JOBS" "pid (jobs s ! i) \<noteq> 0 \<and> state (jobs s ! i) = FG"
      with fg_inD[OF Cons.prems(2), of i] have "waiting job p s" by (simp add: waiting_def)
      with False show False ..
    qed
    with False Cons.prems show ?thesis by simp
  qed
qed

lemma waitfg_inv:
  assumes "table_ok s" and "fg_in (\<lambda>i q. q = p) s" and "near s0 s"
  shows "after s0 (waitfg evs p s)"
proof -
  let ?s1 = "tcsetpgrp p s"
  let ?job = "getjobpid (jobs ?s1) p"
  have t1: "table_ok ?s1" by (rule table_ok_same[OF assms(1)]) (simp_all add: tcsetpgrp_def)
  have j1: "jobs ?s1 = jobs s" by (simp add: tcsetpgrp_def)
  have "fg_in (\<lambda>i q. ?job = Some i \<and> q = p) ?s1"
    unfolding fg_in_def
  proof (intro allI impI)
    fix i assume i: "i < MAX_JOBS" and a: "pid (jobs ?s1 ! i) \<noteq> 0 \<and> state (jobs ?s1 ! i) = FG"
    with fg_inD[OF assms(2), of i] j1 have p: "pid (jobs s ! i) = p" "p \<noteq> 0" by auto
    have "pid (jobs s ! m) \<noteq> p" if "m < i" for m
      using table_ok_uniq[OF assms(1), of m i] that i p by auto
    with i p have "find_job (\<lambda>j. pid j = p) (jobs s) 0 = Some i"
      by (intro find_job_first) auto
    with p j1 show "?job = Some i \<and> pid (jobs ?s1 ! i) = p" by (simp add: getjobpid_def)
  qed
  from waitfg_loop_inv[OF t1 this, of evs] assms(3)
  show ?thesis
  proof (cases "waitfg_loop evs ?job p ?s1")
    case (Returns s2)
    with waitfg_loop_inv[OF t1 \<open>fg_in (\<lambda>i q. ?job = Some i \<and> q = p) ?s1\<close>, of evs]
    have r: "table_ok s2" "fg_in (\<lambda>i q. False) s2" "next_jid s2 = next_jid ?s1" by simp_all
    let ?s3 = "tcsetpgrp (shell_pgid s2) s2"
    have "table_ok ?s3" by (rule table_ok_same[OF r(1)]) (simp_all add: tcsetpgrp_def)
    moreover have "fg_in (\<lambda>i q. False) ?s3"
      by (rule fg_in_cong[OF _ r(2)]) (simp add: tcsetpgrp_def)
    moreover have "near s0 ?s3" using r(3) assms(3) by (simp add: tcsetpgrp_def near_def)
    ultimately show ?thesis using Returns by (simp add: waitfg_def Let_def afterI_Returns)
  next
    case (Waits s2)
    with waitfg_loop_inv[OF t1 \<open>fg_in (\<lambda>i q. ?job = Some i \<and> q = p) ?s1\<close>, of evs]
    have r: "table_ok s2" "fg_in (\<lambda>i q. q = p) s2" "next_jid s2 = next_jid ?s1" by simp_all
    with Waits assms(3) show ?thesis
      by (auto simp: waitfg_def Let_def after_def good_def tcsetpgrp_def near_def)
  next
    case (Exits k s2)
    with waitfg_loop_inv[OF t1 \<open>fg_in (\<lambda>i q. ?job = Some i \<and> q = p) ?s1\<close>, of evs]
    show ?thesis by simp
  next
    case Undefined
    with waitfg_loop_inv[OF t1 \<open>fg_in (\<lambda>i q. ?job = Some i \<and> q = p) ?s1\<close>, of evs]
    show ?thesis by simp
  qed
qed

lemma do_bgfg_inv:
  assumes "table_ok s" and "fg_in (\<lambda>i q. False) s"
  shows "after s (do_bgfg evs argv s)"
proof (cases "tl argv")
  case Nil
  have "table_ok (printf (''requires PID or %jobid'' @ [NL]) s)"
    by (rule table_ok_same[OF assms(1)]) (simp_all add: printf_def)
  moreover have "fg_in (\<lambda>i q. False) (printf (''requires PID or %jobid'' @ [NL]) s)"
    by (rule fg_in_cong[OF _ assms(2)]) (simp add: printf_def)
  ultimately show ?thesis using Nil
    by (simp add: do_bgfg_def afterI_Returns near_def printf_def)
next
  case (Cons ident others)
  define job where "job = (if take 1 ident = ''%'' then getjobjid (jobs s) (atoi (drop 1 ident))
                           else getjobpid (jobs s) (atoi ident))"
  define complaint where "complaint = (if take 1 ident = ''%''
      then ''%'' @ show_int (atoi (drop 1 ident)) @ '': No such job'' @ [NL]
      else ''('' @ show_int (atoi ident) @ ''): No such process'' @ [NL])"
  have d: "do_bgfg evs argv s =
     (case job of
        None \<Rightarrow> Returns (printf complaint s)
      | Some i \<Rightarrow>
          (let s1 = kill (- pid (jobs s ! i)) SIGCONT s in
           if hd argv = ''bg'' then
             Returns (printf (''['' @ show_int (jid (jobs s1 ! i)) @ ''] (''
                        @ show_int (pid (jobs s1 ! i)) @ '') ''
                        @ cmdline (jobs s1 ! i) @ [NL]) (set_state i BG s1))
           else waitfg evs (pid (jobs s1 ! i)) (set_state i FG s1)))"
    using Cons
    by (cases "take 1 ident = ''%''")
       (simp_all add: do_bgfg_def job_def complaint_def Let_def split: option.splits)
  show ?thesis
  proof (cases job)
    case None
    have "table_ok (printf complaint s)"
      by (rule table_ok_same[OF assms(1)]) (simp_all add: printf_def)
    moreover have "fg_in (\<lambda>i q. False) (printf complaint s)"
      by (rule fg_in_cong[OF _ assms(2)]) (simp add: printf_def)
    ultimately show ?thesis using None d by (simp add: afterI_Returns near_def printf_def)
  next
    case (Some i)
    then have "i < MAX_JOBS"
      using find_job_Some[of _ "jobs s" 0 i]
      by (auto simp: job_def getjobjid_def getjobpid_def split: if_splits)
    let ?s1 = "kill (- pid (jobs s ! i)) SIGCONT s"
    have t1: "table_ok ?s1" by (rule table_ok_same[OF assms(1)]) (simp_all add: kill_def)
    have f1: "fg_in (\<lambda>i q. False) ?s1" by (rule fg_in_cong[OF _ assms(2)]) (simp add: kill_def)
    have j1: "jobs ?s1 = jobs s" "next_jid ?s1 = next_jid s" by (simp_all add: kill_def)
    show ?thesis
    proof (cases "hd argv = ''bg''")
      case True
      let ?s2 = "set_state i BG ?s1"
      have t2: "table_ok ?s2" unfolding set_state_def using t1 by (rule table_ok_set_state)
      have f2: "fg_in (\<lambda>i q. False) ?s2"
        unfolding set_state_def using f1 by (rule fg_in_set_state) simp
      have n2: "next_jid ?s2 = next_jid s" by (simp add: set_state_def kill_def)
      let ?s3 = "printf (''['' @ show_int (jid (jobs ?s1 ! i)) @ ''] (''
                        @ show_int (pid (jobs ?s1 ! i)) @ '') ''
                        @ cmdline (jobs ?s1 ! i) @ [NL]) ?s2"
      have "table_ok ?s3" by (rule table_ok_same[OF t2]) (simp_all add: printf_def)
      moreover have "fg_in (\<lambda>i q. False) ?s3" by (rule fg_in_cong[OF _ f2]) (simp add: printf_def)
      moreover have "near s ?s3" using n2 by (simp add: printf_def near_def)
      ultimately show ?thesis using True Some d by (simp add: Let_def afterI_Returns)
    next
      case False
      let ?s2 = "set_state i FG ?s1"
      let ?p = "pid (jobs ?s1 ! i)"
      have t2: "table_ok ?s2" unfolding set_state_def using t1 by (rule table_ok_set_state)
      have n2: "near s ?s2" by (simp add: set_state_def kill_def near_def)
      have f2: "fg_in (\<lambda>i q. q = ?p) ?s2"
        unfolding fg_in_def
      proof (intro allI impI)
        fix k assume k: "k < MAX_JOBS" and a: "pid (jobs ?s2 ! k) \<noteq> 0 \<and> state (jobs ?s2 ! k) = FG"
        show "pid (jobs ?s2 ! k) = ?p"
        proof (cases "k = i")
          case True
          then show ?thesis by (simp add: set_state_def set_state_nth)
        next
          case False
          with a have "pid (jobs ?s1 ! k) \<noteq> 0 \<and> state (jobs ?s1 ! k) = FG"
            by (simp add: set_state_def)
          with fg_inD[OF f1 k] show ?thesis by simp
        qed
      qed
      from waitfg_inv[OF t2 f2 n2, of evs] False Some d show ?thesis by (simp add: Let_def)
    qed
  qed
qed

section \<open>The table invariant in every reachable state\<close>

lemma foldl_frame:
  "(\<And>s' j. g (f s' j) = g s') \<Longrightarrow> g (foldl f s xs) = g s"
  by (induction xs arbitrary: s) simp_all

lemma listjobs_frame:
  "jobs (listjobs s) = jobs s \<and> next_jid (listjobs s) = next_jid s
   \<and> children (listjobs s) = children s"
  unfolding listjobs_def
  by (intro conjI; rule foldl_frame) (simp_all add: printf_def)

lemma after_Undefined: "after s Undefined"
  by (simp add: after_def good_def)

lemma process_pipeline_inv:
  assumes "table_ok s" and "fg_in (\<lambda>i q. False) s"
    and ok: "list_all (\<lambda>p. 1 \<le> p \<and> p \<notin> set (children s)) (forked k)"
  shows "after s (process_pipeline k line bg s)"
proof (cases "bg \<and> length (split_commands line) = 0")
  case True
  then show ?thesis by (simp add: process_pipeline_def after_def good_def)
next
  case False
  let ?n = "length (split_commands line)"
  let ?s1 = "s\<lparr>sigchld_blocked := True\<rparr>"
  have t1: "table_ok ?s1" by (rule table_ok_same[OF assms(1)]) simp_all
  have f1: "fg_in (\<lambda>i q. False) ?s1" by (rule fg_in_cong[OF _ assms(2)]) simp
  show ?thesis
  proof (cases "fork_stages k ?n 0 0 0 ?s1")
    case (Inl s2)
    from fork_stages_frame[OF Inl] have
      "jobs s2 = jobs ?s1" "next_jid s2 = next_jid ?s1" "set (children ?s1) \<subseteq> set (children s2)"
      by simp_all
    then have "table_ok s2" "fg_in (\<lambda>i q. False) s2" "near s s2"
      using table_ok_same[OF t1, of s2] fg_in_cong[OF _ f1, of s2] by (simp_all add: near_def)
    with Inl False show ?thesis
      by (simp add: process_pipeline_def sigprocmask_block_def afterI_Returns after_Undefined)
  next
    case (Inr x)
    obtain leader s2 where x: "x = (leader, s2)" by (cases x)
    from fork_stages_frame[OF Inr[unfolded x]] have
      j2: "jobs s2 = jobs ?s1" "next_jid s2 = next_jid ?s1"
          "set (children ?s1) \<subseteq> set (children s2)" "sigchld_blocked s2"
      and l: "if 0 < ?n then fork_call k 0 = Some leader \<and> leader \<in> set (children s2)
              else leader = 0"
      by simp_all
    let ?s3 = "foldl (\<lambda>s' e. kernel_event e s') s2 (launch_events k)"
    from events_blocked[OF j2(4), of "launch_events k"] have
      e3: "jobs ?s3 = jobs s2" "next_jid ?s3 = next_jid s2" "children ?s3 = children s2"
      by simp_all
    from j2(3) have c2: "set (children s) \<subseteq> set (children s2)" by simp
    have j3: "jobs ?s3 = jobs s" "next_jid ?s3 = next_jid s"
          "set (children s) \<subseteq> set (children ?s3)" "children ?s3 = children s2"
    proof -
      show "jobs ?s3 = jobs s" using e3(1) j2(1) by simp
      show "next_jid ?s3 = next_jid s" using e3(2) j2(2) by simp
      show "set (children s) \<subseteq> set (children ?s3)" using c2 by (simp only: e3(3))
      show "children ?s3 = children s2" by (rule e3(3))
    qed
    have t3: "table_ok ?s3" by (rule table_ok_same[OF assms(1)]) (rule j3(1) j3(2) j3(3))+
    have f3: "fg_in (\<lambda>i q. False) ?s3" by (rule fg_in_cong[OF _ assms(2)]) (rule j3(1))
    have fresh: "1 \<le> leader \<longrightarrow>
        leader \<in> set (children ?s3) \<and> (\<forall>i<MAX_JOBS. pid (jobs ?s3 ! i) \<noteq> leader)"
    proof
      assume p: "1 \<le> leader"
      with l have c: "fork_call k 0 = Some leader" "leader \<in> set (children s2)"
        by (auto split: if_splits)
      from fork_call_forked[OF c(1)] ok have n: "leader \<notin> set (children s)"
        by (auto simp: list_all_iff)
      have "pid (jobs s ! i) \<noteq> leader" if "i < MAX_JOBS" for i
        using table_ok_live[OF assms(1) that] n p by auto
      with c(2) j3 show "leader \<in> set (children ?s3) \<and> (\<forall>i<MAX_JOBS. pid (jobs ?s3 ! i) \<noteq> leader)"
        by simp
    qed
    let ?st = "if bg then BG else FG"
    let ?s4 = "snd (addjob leader ?st line ?s3)"
    from addjob_inv[OF t3 f3 fresh, of ?st line] j3(2) have
      a4: "table_ok ?s4" "fg_in (\<lambda>i q. q = leader) ?s4"
          "bg \<longrightarrow> fg_in (\<lambda>i q. False) ?s4" "near s ?s4"
      by (cases bg; simp add: near_def)+
    let ?s5 = "sigprocmask_setmask (sigchld_blocked s) ?s4"
    have e: "process_pipeline k line bg s =
       (if \<not> bg then waitfg (wait_events k) leader ?s5
        else Returns (printf (''['' @ show_int (pid2jid leader ?s5) @ ''] (''
                                 @ show_int leader @ '') '' @ line @ [NL]) ?s5))"
      using False Inr x by (simp add: process_pipeline_def sigprocmask_block_def Let_def)
    show ?thesis
    proof (cases bg)
      case False
      from setmask_inv[OF a4(1,2), of "sigchld_blocked s"] a4(4)
      have "table_ok ?s5" "fg_in (\<lambda>i q. q = leader) ?s5" "near s ?s5"
        by (simp_all add: near_def)
      from waitfg_inv[OF this, of "wait_events k"] False e show ?thesis by simp
    next
      case True
      with a4(3) have f4: "fg_in (\<lambda>i q. False) ?s4" by simp
      from setmask_inv[OF a4(1) f4, of "sigchld_blocked s"] a4(4)
      have 5: "table_ok ?s5" "fg_in (\<lambda>i q. False) ?s5" "near s ?s5"
        by (simp_all add: near_def)
      let ?s6 = "printf (''['' @ show_int (pid2jid leader ?s5) @ ''] (''
                                 @ show_int leader @ '') '' @ line @ [NL]) ?s5"
      have "table_ok ?s6" by (rule table_ok_same[OF 5(1)]) (simp_all add: printf_def)
      moreover have "fg_in (\<lambda>i q. False) ?s6"
        by (rule fg_in_cong[OF _ 5(2)]) (simp add: printf_def)
      moreover have "near s ?s6" using 5(3) by (simp add: printf_def near_def)
      ultimately show ?thesis using True e by (simp add: afterI_Returns)
    qed
  qed
qed

lemma eval_inv:
  assumes "table_ok s" and "fg_in (\<lambda>i q. False) s"
    and "list_all (\<lambda>p. 1 \<le> p \<and> p \<notin> set (children s)) (forked k)"
  shows "after s (eval k line s)"
proof -
  let ?argv = "strtok_all blanks line"
  have l: "after s (Returns (listjobs s))"
  proof (rule afterI_Returns)
    show "table_ok (listjobs s)"
      by (rule table_ok_same[OF assms(1)]) (simp_all add: listjobs_frame)
    show "fg_in (\<lambda>i q. False) (listjobs s)"
      by (rule fg_in_cong[OF _ assms(2)]) (simp add: listjobs_frame)
    show "near s (listjobs s)" by (simp add: listjobs_frame near_def)
  qed
  have r: "after s (Returns s)" using assms(1,2) by (simp add: afterI_Returns near_refl)
  have x: "after s (Exits 0 s)" using assms(1,2) by (simp add: after_def good_def near_refl)
  have u: "after s Undefined" by (simp add: after_def good_def)
  from l r x u do_bgfg_inv[OF assms(1,2), of "wait_events k" ?argv]
    process_pipeline_inv[OF assms, of line "last ?argv = ''&''"]
  show ?thesis by (simp add: eval_def Let_def)
qed

lemma shell_step_inv:
  assumes "table_ok s" and "fg_in (\<lambda>i q. False) s" and "input_ok inp s"
  shows "after s (shell_step inp s)"
proof (cases inp)
  case (Command line k)
  with assms(3) have "list_all (\<lambda>p. 1 \<le> p \<and> p \<notin> set (children s)) (forked k)"
    by (simp add: input_ok_def)
  from eval_inv[OF assms(1,2) this, of line] Command show ?thesis
    by (simp add: shell_step_def)
next
  case (Event e)
  from kernel_event_inv[OF assms(1,2), of e] kernel_event_counter[of e s] Event
  show ?thesis by (simp add: shell_step_def afterI_Returns near_def)
qed

lemma boot_ok: "1 \<le> self \<Longrightarrow> table_ok (boot self modes) \<and> fg_in (\<lambda>i q. False) (boot self modes)"
  by (simp add: table_ok_def fg_in_def boot_jobs empty_job_def)

lemma good_Returns: "good (Returns s) \<Longrightarrow> table_ok s \<and> fg_in (\<lambda>i q. False) s"
  by (simp add: good_def)

lemma reach_good: "reach r \<Longrightarrow> good r"
proof (induction rule: reach.induct)
  case (reach_boot self modes)
  then show ?case using boot_ok[of self modes] by (simp add: good_def)
next
  case (reach_step s inp)
  from good_Returns[OF reach_step.IH] reach_step.hyps(2)
  have "after s (shell_step inp s)" by (auto intro: shell_step_inv)
  then show ?case by (simp add: after_def)
qed

section \<open>Job ids across a step\<close>

lemma keptI:
  assumes "next_jid s' = next_jid s"
    and "\<And>i. i < MAX_JOBS \<Longrightarrow> pid (jobs s' ! i) \<noteq> 0 \<Longrightarrow>
           pid (jobs s' ! i) = pid (jobs s ! i) \<and> jid (jobs s' ! i) = jid (jobs s ! i)"
  shows "kept s s'"
  using assms by (simp add: kept_def)

lemma kept_refl: "kept s s"
  by (simp add: kept_def)

lemma kept_trans:
  assumes "kept s t" and "kept t u"
  shows "kept s u"
proof (rule keptI)
  show "next_jid u = next_jid s" using assms by (simp add: kept_def)
next
  fix i assume i: "i < MAX_JOBS" and u: "pid (jobs u ! i) \<noteq> 0"
  with assms(2) have 1: "pid (jobs u ! i) = pid (jobs t ! i)" "jid (jobs u ! i) = jid (jobs t ! i)"
    by (simp_all add: kept_def)
  with u have "pid (jobs t ! i) \<noteq> 0" by simp
  with assms(1) i have "pid (jobs t ! i) = pid (jobs s ! i)" "jid (jobs t ! i) = jid (jobs s ! i)"
    by (simp_all add: kept_def)
  with 1 show "pid (jobs u ! i) = pid (jobs s ! i) \<and> jid (jobs u ! i) = jid (jobs s ! i)"
    by simp
qed

lemma kept_same: "jobs s' = jobs s \<Longrightarrow> next_jid s' = next_jid s \<Longrightarrow> kept s s'"
  by (simp add: kept_def)

lemma kept_set_state: "kept s (s\<lparr>jobs := (jobs s)[i := (jobs s ! i)\<lparr>state := st\<rparr>]\<rparr>)"
  by (simp add: kept_def set_state_nth)

lemma kept_clear: "kept s (s\<lparr>jobs := (jobs s)[i := clearjob (jobs s ! i)]\<rparr>)"
proof (rule keptI)
  fix k
  let ?js = "(jobs s)[i := clearjob (jobs s ! i)]"
  assume "k < MAX_JOBS" and a: "pid (jobs (s\<lparr>jobs := ?js\<rparr>) ! k) \<noteq> 0"
  have "?js ! k = jobs s ! k"
  proof (cases "k = i \<and> i < length (jobs s)")
    case True
    with a show ?thesis by (simp add: clearjob_def)
  next
    case False
    then show ?thesis
      by (cases "i < length (jobs s)") (auto simp: list_update_beyond not_less)
  qed
  then show "pid (jobs (s\<lparr>jobs := ?js\<rparr>) ! k) = pid (jobs s ! k)
     \<and> jid (jobs (s\<lparr>jobs := ?js\<rparr>) ! k) = jid (jobs s ! k)" by simp
qed simp

lemma kept_reap: "kept s (reap p w s)"
proof -
  have d: "kept s (snd (deletejob p s))"
    by (auto simp: deletejob_def kept_refl kept_clear split: option.splits)
  show ?thesis
  proof (cases w)
    case (Stopped n)
    show ?thesis
    proof (cases "getjobpid (jobs s) p")
      case None
      with Stopped show ?thesis by (simp add: reap_def kept_refl)
    next
      case (Some i)
      let ?t = "s\<lparr>jobs := (jobs s)[i := (jobs s ! i)\<lparr>state := ST\<rparr>]\<rparr>"
      have "kept ?t (reap p w s)"
        using Some Stopped by (intro kept_same) (simp_all add: reap_def printf_def)
      from kept_trans[OF kept_set_state this] show ?thesis .
    qed
  qed (simp_all add: reap_def d)
qed

lemma kept_handler: "kept s (sigchld_handler s)"
proof (rule sigchld_handler_rule[where I = "\<lambda>t. kept s t"])
  show "kept s s" by (rule kept_refl)
next
  fix t p w t'
  assume k: "kept s t" and w: "waitpid t = (p, w, t')"
  from waitpid_frame[OF w] have "kept t t'" by (simp add: kept_same)
  from kept_trans[OF k this] show "kept s t'" .
  from kept_trans[OF kept_trans[OF k \<open>kept t t'\<close>] kept_reap] show "kept s (reap p w t')" .
qed

lemma kept_kernel_event: "kept s (kernel_event e s)"
proof (cases e)
  case (TtyModes m)
  then show ?thesis by (simp add: kernel_event_def kept_def)
next
  case (ChildChange p w)
  let ?t = "s\<lparr>pending := pending s @ [(p, w)]\<rparr>"
  have "kept s ?t" by (simp add: kept_def)
  from this kept_trans[OF this kept_handler] ChildChange show ?thesis
    by (simp add: kernel_event_def Let_def)
qed

lemma kept_setmask: "kept s (sigprocmask_setmask prev s)"
proof -
  let ?t = "s\<lparr>sigchld_blocked := prev\<rparr>"
  have "kept s ?t" by (simp add: kept_def)
  from this kept_trans[OF this kept_handler] show ?thesis
    by (cases prev) (simp_all add: sigprocmask_setmask_def Let_def)
qed

lemma kept_waitfg_loop: "state_of (waitfg_loop evs job p s) = Some s' \<Longrightarrow> kept s s'"
proof (induction evs arbitrary: s)
  case Nil
  then show ?case by (auto simp: kept_refl split: if_splits)
next
  case (Cons e evs)
  show ?case
  proof (cases "waiting job p s")
    case True
    with Cons.prems have "state_of (waitfg_loop evs job p (kernel_event e s)) = Some s'" by simp
    from kept_trans[OF kept_kernel_event Cons.IH[OF this]] show ?thesis .
  next
    case False
    with Cons.prems show ?thesis by (simp add: kept_refl)
  qed
qed

lemma kept_waitfg: "state_of (waitfg evs p s) = Some s' \<Longrightarrow> kept s s'"
proof -
  assume a: "state_of (waitfg evs p s) = Some s'"
  let ?s1 = "tcsetpgrp p s"
  have 1: "kept s ?s1" by (simp add: kept_def tcsetpgrp_def)
  show ?thesis
  proof (cases "waitfg_loop evs (getjobpid (jobs ?s1) p) p ?s1")
    case (Returns s2)
    with a have e: "s' = tcsetpgrp (shell_pgid s2) s2" by (simp add: waitfg_def Let_def)
    from Returns have "kept ?s1 s2"
      using kept_waitfg_loop[of evs "getjobpid (jobs ?s1) p" p ?s1 s2] by simp
    moreover have "kept s2 s'" by (simp add: e kept_def tcsetpgrp_def)
    ultimately show ?thesis using 1 by (blast intro: kept_trans)
  next
    case (Waits s2)
    with a have e: "s' = s2" by (simp add: waitfg_def Let_def)
    from Waits have "kept ?s1 s2"
      using kept_waitfg_loop[of evs "getjobpid (jobs ?s1) p" p ?s1 s2] by simp
    with 1 e show ?thesis by (blast intro: kept_trans)
  next
    case (Exits k s2)
    with a have e: "s' = s2" by (simp add: waitfg_def Let_def)
    from Exits have "kept ?s1 s2"
      using kept_waitfg_loop[of evs "getjobpid (jobs ?s1) p" p ?s1 s2] by simp
    with 1 e show ?thesis by (blast intro: kept_trans)
  next
    case Undefined
    with a show ?thesis by (simp add: waitfg_def Let_def)
  qed
qed

lemma kept_do_bgfg: "state_of (do_bgfg evs argv s) = Some s' \<Longrightarrow> kept s s'"
proof -
  assume a: "state_of (do_bgfg evs argv s) = Some s'"
  have p: "kept s (printf msg s)" for msg by (simp add: kept_def printf_def)
  show ?thesis
  proof (cases "tl argv")
    case Nil
    with a p show ?thesis by (auto simp: do_bgfg_def)
  next
    case (Cons ident others)
    define job where "job = (if take 1 ident = ''%'' then getjobjid (jobs s) (atoi (drop 1 ident))
                             else getjobpid (jobs s) (atoi ident))"
    define complaint where "complaint = (if take 1 ident = ''%''
        then ''%'' @ show_int (atoi (drop 1 ident)) @ '': No such job'' @ [NL]
        else ''('' @ show_int (atoi ident) @ ''): No such process'' @ [NL])"
    have d: "do_bgfg evs argv s =
       (case job of
          None \<Rightarrow> Returns (printf complaint s)
        | Some i \<Rightarrow>
            (let s1 = kill (- pid (jobs s ! i)) SIGCONT s in
             if hd argv = ''bg'' then
               Returns (printf (''['' @ show_int (jid (jobs s1 ! i)) @ ''] (''
                          @ show_int (pid (jobs s1 ! i)) @ '') ''
                          @ cmdline (jobs s1 ! i) @ [NL]) (set_state i BG s1))
             else waitfg evs (pid (jobs s1 ! i)) (set_state i FG s1)))"
      using Cons
      by (cases "take 1 ident = ''%''")
         (simp_all add: do_bgfg_def job_def complaint_def Let_def split: option.splits)
    show ?thesis
    proof (cases job)
      case None
      with a d p[of complaint] show ?thesis by auto
    next
      case (Some i)
      let ?s1 = "kill (- pid (jobs s ! i)) SIGCONT s"
      have 1: "kept s ?s1" by (simp add: kept_def kill_def)
      have 2: "kept ?s1 (set_state i st ?s1)" for st
        unfolding set_state_def by (rule kept_set_state)
      show ?thesis
      proof (cases "hd argv = ''bg''")
        case True
        with a d Some have "s' = printf (''['' @ show_int (jid (jobs ?s1 ! i)) @ ''] (''
                          @ show_int (pid (jobs ?s1 ! i)) @ '') ''
                          @ cmdline (jobs ?s1 ! i) @ [NL]) (set_state i BG ?s1)"
          by (simp add: Let_def)
        then have "kept (set_state i BG ?s1) s'" by (simp add: kept_def printf_def)
        with 1 2[of BG] show ?thesis by (blast intro: kept_trans)
      next
        case False
        with a d Some have "state_of (waitfg evs (pid (jobs ?s1 ! i)) (set_state i FG ?s1)) = Some s'"
          by (simp add: Let_def)
        from kept_waitfg[OF this] 1 2[of FG] show ?thesis by (blast intro: kept_trans)
      qed
    qed
  qed
qed

lemma kept_listjobs: "kept s (listjobs s)"
  by (rule kept_same) (simp_all add: listjobs_frame)

lemma kept_grown: "kept s s' \<Longrightarrow> grown s s'"
  by (simp add: grown_def)

lemma grown_kept:
  assumes "grown s t" and "kept t u"
  shows "grown s u"
proof (cases "kept s t")
  case True
  from kept_trans[OF this assms(2)] show ?thesis by (rule kept_grown)
next
  case False
  with assms(1) obtain n where n: "n < MAX_JOBS" "pid (jobs s ! n) = 0"
      "next_jid t = int_incr (next_jid s)"
    and r: "\<And>i. i < MAX_JOBS \<Longrightarrow> pid (jobs t ! i) \<noteq> 0 \<Longrightarrow>
             (if i = n then jid (jobs t ! i) = next_jid s
              else pid (jobs t ! i) = pid (jobs s ! i) \<and> jid (jobs t ! i) = jid (jobs s ! i))"
    unfolding grown_def by blast
  have "if i = n then jid (jobs u ! i) = next_jid s
        else pid (jobs u ! i) = pid (jobs s ! i) \<and> jid (jobs u ! i) = jid (jobs s ! i)"
    if i: "i < MAX_JOBS" and u: "pid (jobs u ! i) \<noteq> 0" for i
  proof -
    from assms(2) i u have 1: "pid (jobs u ! i) = pid (jobs t ! i)"
      "jid (jobs u ! i) = jid (jobs t ! i)" by (simp_all add: kept_def)
    with u have "pid (jobs t ! i) \<noteq> 0" by simp
    from r[OF i this] 1 show ?thesis by (simp split: if_splits)
  qed
  moreover from assms(2) n(3) have "next_jid u = int_incr (next_jid s)" by (simp add: kept_def)
  ultimately show ?thesis unfolding grown_def using n(1,2) by blast
qed

lemma grown_addjob: "grown s (snd (addjob p st cl s))"
proof (cases "1 \<le> p \<and> find_job (\<lambda>j. pid j = 0) (jobs s) 0 \<noteq> None")
  case False
  then have "snd (addjob p st cl s) = s" by (auto simp: addjob_def)
  then show ?thesis by (simp add: kept_grown kept_refl)
next
  case True
  then obtain n where f: "find_job (\<lambda>j. pid j = 0) (jobs s) 0 = Some n" and p: "1 \<le> p"
    by auto
  let ?j = "(jobs s ! n)\<lparr>pid := p, state := st, jid := next_jid s, cmdline := cl\<rparr>"
  let ?s' = "s\<lparr>jobs := (jobs s)[n := ?j], next_jid := int_incr (next_jid s)\<rparr>"
  from f p have e: "snd (addjob p st cl s) = ?s'" by (simp add: addjob_def)
  from find_job_Some[OF f] have n: "n < MAX_JOBS" "pid (jobs s ! n) = 0" by auto
  have r: "if i = n then jid (jobs ?s' ! i) = next_jid s
        else pid (jobs ?s' ! i) = pid (jobs s ! i) \<and> jid (jobs ?s' ! i) = jid (jobs s ! i)"
    if "pid (jobs ?s' ! i) \<noteq> 0" for i
  proof (cases "i = n")
    case False
    then show ?thesis by simp
  next
    case True
    show ?thesis
    proof (cases "n < length (jobs s)")
      case True
      with \<open>i = n\<close> show ?thesis by simp
    next
      case False
      with that n(2) \<open>i = n\<close> show ?thesis by (simp add: list_update_beyond not_less)
    qed
  qed
  have "\<exists>m<MAX_JOBS. pid (jobs s ! m) = 0 \<and> next_jid ?s' = int_incr (next_jid s)
            \<and> (\<forall>i<MAX_JOBS. pid (jobs ?s' ! i) \<noteq> 0 \<longrightarrow>
                   (if i = m then jid (jobs ?s' ! i) = next_jid s
                    else pid (jobs ?s' ! i) = pid (jobs s ! i)
                       \<and> jid (jobs ?s' ! i) = jid (jobs s ! i)))"
  proof (intro exI[of _ n] conjI allI impI)
    show "n < MAX_JOBS" "pid (jobs s ! n) = 0" by (rule n)+
    show "next_jid ?s' = int_incr (next_jid s)" by simp
    fix i assume "pid (jobs ?s' ! i) \<noteq> 0"
    then show "if i = n then jid (jobs ?s' ! i) = next_jid s
        else pid (jobs ?s' ! i) = pid (jobs s ! i) \<and> jid (jobs ?s' ! i) = jid (jobs s ! i)"
      by (rule r)
  qed
  then show ?thesis unfolding e grown_def by (rule disjI2)
qed

lemma grown_from:
  assumes "jobs t = jobs s" and "next_jid t = next_jid s" and "grown t u"
  shows "grown s u"
  using assms(3) unfolding grown_def kept_def assms(1) assms(2) .

lemma grown_process_pipeline:
  assumes "state_of (process_pipeline k line bg s) = Some s'"
  shows "grown s s'"
proof (cases "bg \<and> length (split_commands line) = 0")
  case True
  with assms show ?thesis by (simp add: process_pipeline_def)
next
  case False
  let ?n = "length (split_commands line)"
  let ?s1 = "s\<lparr>sigchld_blocked := True\<rparr>"
  show ?thesis
  proof (cases "fork_stages k ?n 0 0 0 ?s1")
    case (Inl s2)
    from fork_stages_frame[OF Inl] have "jobs s2 = jobs s" "next_jid s2 = next_jid s"
      by simp_all
    then have "kept s s2" by (rule kept_same)
    moreover from Inl False assms have "s' = s2"
      by (auto simp: process_pipeline_def sigprocmask_block_def)
    ultimately show ?thesis by (simp add: kept_grown)
  next
    case (Inr x)
    obtain leader s2 where x: "x = (leader, s2)" by (cases x)
    from fork_stages_frame[OF Inr[unfolded x]] have
      j2: "jobs s2 = jobs s" "next_jid s2 = next_jid s" "sigchld_blocked s2"
      by simp_all
    let ?s3 = "foldl (\<lambda>s' e. kernel_event e s') s2 (launch_events k)"
    from events_blocked[OF j2(3), of "launch_events k"] j2 have
      j3: "jobs ?s3 = jobs s" "next_jid ?s3 = next_jid s"
      by simp_all
    let ?st = "if bg then BG else FG"
    let ?s4 = "snd (addjob leader ?st line ?s3)"
    have g4: "grown s ?s4" by (rule grown_from[OF j3 grown_addjob])
    let ?s5 = "sigprocmask_setmask (sigchld_blocked s) ?s4"
    have g5: "grown s ?s5" by (rule grown_kept[OF g4 kept_setmask])
    have e: "process_pipeline k line bg s =
       (if \<not> bg then waitfg (wait_events k) leader ?s5
        else Returns (printf (''['' @ show_int (pid2jid leader ?s5) @ ''] (''
                                 @ show_int leader @ '') '' @ line @ [NL]) ?s5))"
      using False Inr x by (simp add: process_pipeline_def sigprocmask_block_def Let_def)
    show ?thesis
    proof (cases bg)
      case False
      with e assms have "state_of (waitfg (wait_events k) leader ?s5) = Some s'" by simp
      from grown_kept[OF g5 kept_waitfg[OF this]] show ?thesis .
    next
      case True
      with e assms have "s' = printf (''['' @ show_int (pid2jid leader ?s5) @ ''] (''
                                 @ show_int leader @ '') '' @ line @ [NL]) ?s5" by simp
      then have "kept ?s5 s'" by (simp add: kept_def printf_def)
      from grown_kept[OF g5 this] show ?thesis .
    qed
  qed
qed

lemma grown_eval:
  assumes "state_of (eval k line s) = Some s'"
  shows "grown s s'"
proof -
  let ?argv = "strtok_all blanks line"
  from assms kept_listjobs[of s] kept_refl[of s]
    kept_do_bgfg[of "wait_events k" ?argv s s']
    grown_process_pipeline[of k line "last ?argv = ''&''" s s']
  show ?thesis by (auto simp: eval_def Let_def kept_grown split: if_splits)
qed

lemma grown_shell_step:
  assumes "state_of (shell_step inp s) = Some s'"
  shows "grown s s'"
proof (cases inp)
  case (Command line k)
  with assms show ?thesis by (simp add: shell_step_def grown_eval)
next
  case (Event e)
  with assms kept_kernel_event[of s e] show ?thesis by (auto simp: shell_step_def kept_grown)
qed

lemma jids_ok_boot: "jids_ok (boot self modes)"
  by (simp add: jids_ok_def boot_jobs empty_job_def) (simp add: boot_def INT_MAX_def)

lemma below_incr: "x < INT_MAX \<Longrightarrow> int_incr x = x + 1"
  by (simp add: int_incr_def)

lemma jids_ok_grown:
  assumes "jids_ok s" and "next_jid s < INT_MAX" and "grown s s'"
  shows "jids_ok s'"
proof (cases "kept s s'")
  case True
  have old: "pid (jobs s ! i) \<noteq> 0 \<and> jid (jobs s' ! i) = jid (jobs s ! i)"
    if "i < MAX_JOBS" "pid (jobs s' ! i) \<noteq> 0" for i
    using True that by (simp add: kept_def)
  from True have c: "next_jid s' = next_jid s" by (simp add: kept_def)
  show ?thesis
    unfolding jids_ok_def
  proof (intro conjI allI impI)
    show "1 \<le> next_jid s'" "next_jid s' \<le> INT_MAX" using assms(1) c by (simp_all add: jids_ok_def)
  next
    fix i assume "i < MAX_JOBS" "pid (jobs s' ! i) \<noteq> 0"
    with old[of i] assms(1) c
    show "1 \<le> jid (jobs s' ! i)" "jid (jobs s' ! i) < next_jid s'"
      by (simp_all add: jids_ok_def)
  next
    fix i k assume "i < MAX_JOBS" "k < MAX_JOBS"
      "pid (jobs s' ! i) \<noteq> 0 \<and> pid (jobs s' ! k) \<noteq> 0 \<and> i \<noteq> k"
    with old[of i] old[of k] assms(1) show "jid (jobs s' ! i) \<noteq> jid (jobs s' ! k)"
      by (simp add: jids_ok_def)
  qed
next
  case False
  with assms(3) obtain n where n: "n < MAX_JOBS" "pid (jobs s ! n) = 0"
      "next_jid s' = int_incr (next_jid s)"
    and r: "\<And>i. i < MAX_JOBS \<Longrightarrow> pid (jobs s' ! i) \<noteq> 0 \<Longrightarrow>
             (if i = n then jid (jobs s' ! i) = next_jid s
              else pid (jobs s' ! i) = pid (jobs s ! i) \<and> jid (jobs s' ! i) = jid (jobs s ! i))"
    unfolding grown_def by blast
  from n(3) assms(2) have c: "next_jid s' = next_jid s + 1" by (simp add: below_incr)
  have old: "pid (jobs s ! i) \<noteq> 0 \<and> jid (jobs s' ! i) = jid (jobs s ! i)
             \<and> 1 \<le> jid (jobs s ! i) \<and> jid (jobs s ! i) < next_jid s"
    if "i < MAX_JOBS" "pid (jobs s' ! i) \<noteq> 0" "i \<noteq> n" for i
    using r[OF that(1,2)] that assms(1) by (simp add: jids_ok_def)
  show ?thesis
    unfolding jids_ok_def
  proof (intro conjI allI impI)
    show "1 \<le> next_jid s'" "next_jid s' \<le> INT_MAX" using assms(1,2) c by (simp_all add: jids_ok_def)
  next
    fix i assume i: "i < MAX_JOBS" "pid (jobs s' ! i) \<noteq> 0"
    show "1 \<le> jid (jobs s' ! i)" "jid (jobs s' ! i) < next_jid s'"
      using r[OF i] old[OF i] assms(1) c by (cases "i = n"; simp add: jids_ok_def)+
  next
    fix i k assume a: "i < MAX_JOBS" "k < MAX_JOBS"
      "pid (jobs s' ! i) \<noteq> 0 \<and> pid (jobs s' ! k) \<noteq> 0 \<and> i \<noteq> k"
    show "jid (jobs s' ! i) \<noteq> jid (jobs s' ! k)"
    proof (cases "i = n")
      case True
      with a have "k \<noteq> n" by simp
      with r[of i] old[of k] a True show ?thesis by simp
    next
      case False
      note i = this
      show ?thesis
      proof (cases "k = n")
        case True
        with r[of k] old[of i] a i show ?thesis by simp
      next
        case False
        with old[of i] old[of k] a i assms(1) show ?thesis by (simp add: jids_ok_def)
      qed
    qed
  qed
qed

lemma before_wrap_reach: "before_wrap r0 r \<Longrightarrow> reach r0 \<Longrightarrow> reach r"
  by (induction rule: before_wrap.induct) (auto intro: reach_step)

lemma before_wrap_trans: "before_wrap r1 r2 \<Longrightarrow> before_wrap r0 r1 \<Longrightarrow> before_wrap r0 r2"
  by (induction rule: before_wrap.induct) (auto intro: before_wrap_step)

lemma before_wrap_jids:
  "before_wrap r0 r \<Longrightarrow> r0 = Returns s0 \<Longrightarrow> jids_ok s0 \<Longrightarrow> state_of r = Some s \<Longrightarrow> jids_ok s"
proof (induction arbitrary: s rule: before_wrap.induct)
  case (before_wrap_refl r)
  then show ?case by simp
next
  case (before_wrap_step r t inp)
  from before_wrap_step.IH[OF before_wrap_step.prems(1,2), of t] have "jids_ok t" by simp
  from jids_ok_grown[OF this before_wrap_step.hyps(2) grown_shell_step[OF before_wrap_step.prems(3)]]
  show ?case .
qed

lemma grown_counter:
  "grown s s' \<Longrightarrow> next_jid s < INT_MAX \<Longrightarrow>
     next_jid s' = next_jid s \<or> next_jid s' = next_jid s + 1"
  by (auto simp: grown_def kept_def below_incr)

lemma before_wrap_counter:
  "before_wrap r r' \<Longrightarrow> state_of r = Some s \<Longrightarrow> state_of r' = Some s' \<Longrightarrow>
     next_jid s \<le> next_jid s'"
proof (induction arbitrary: s' rule: before_wrap.induct)
  case (before_wrap_refl r)
  then show ?case by simp
next
  case (before_wrap_step r t inp)
  from before_wrap_step.IH[OF before_wrap_step.prems(1), of t] have "next_jid s \<le> next_jid t"
    by simp
  with grown_counter[OF grown_shell_step[OF before_wrap_step.prems(2)] before_wrap_step.hyps(2)]
  show ?case by auto
qed

section \<open>Job ids are unique and increase until the counter overflows\<close>

lemma distinct_map_filter_nth:
  assumes "\<And>i k. i < length xs \<Longrightarrow> k < length xs \<Longrightarrow> P (xs ! i) \<Longrightarrow> P (xs ! k) \<Longrightarrow> i \<noteq> k
             \<Longrightarrow> f (xs ! i) \<noteq> f (xs ! k)"
  shows "distinct (map f (filter P xs))"
  using assms
proof (induction xs)
  case Nil
  show ?case by simp
next
  case (Cons x xs)
  have IH: "distinct (map f (filter P xs))"
  proof (rule Cons.IH)
    fix i k assume "i < length xs" "k < length xs" "P (xs ! i)" "P (xs ! k)" "i \<noteq> k"
    with Cons.prems[of "Suc i" "Suc k"] show "f (xs ! i) \<noteq> f (xs ! k)" by simp
  qed
  have "f x \<noteq> f y" if "P x" "y \<in> set xs" "P y" for y
  proof -
    from that(2) obtain k where "k < length xs" "xs ! k = y" by (auto simp: in_set_conv_nth)
    with Cons.prems[of 0 "Suc k"] that show ?thesis by simp
  qed
  with IH show ?case by auto
qed

lemma filter_at_most_one:
  assumes "\<And>i k. i < length xs \<Longrightarrow> k < length xs \<Longrightarrow> P (xs ! i) \<Longrightarrow> P (xs ! k) \<Longrightarrow> i = k"
  shows "length (filter P xs) \<le> 1"
  using assms
proof (induction xs)
  case Nil
  show ?case by simp
next
  case (Cons x xs)
  have IH: "length (filter P xs) \<le> 1"
  proof (rule Cons.IH)
    fix i k assume "i < length xs" "k < length xs" "P (xs ! i)" "P (xs ! k)"
    with Cons.prems[of "Suc i" "Suc k"] show "i = k" by simp
  qed
  show ?case
  proof (cases "P x")
    case False
    with IH show ?thesis by simp
  next
    case True
    have "\<not> P y" if "y \<in> set xs" for y
    proof
      assume "P y"
      from that obtain k where "k < length xs" "xs ! k = y" by (auto simp: in_set_conv_nth)
      with Cons.prems[of 0 "Suc k"] True \<open>P y\<close> show False by simp
    qed
    then have "filter P xs = []" by (simp add: filter_empty_conv)
    with True show ?thesis by simp
  qed
qed

lemma good_state: "good r \<Longrightarrow> state_of r = Some s \<Longrightarrow> table_ok s"
  by (cases r) (auto simp: good_def)

lemma live_jobs: "table_ok s \<Longrightarrow> live s = filter (\<lambda>j. pid j \<noteq> 0) (jobs s)"
  by (simp add: live_def table_ok_length)

lemma live_pids: "table_ok s \<Longrightarrow> distinct (map pid (live s))"
proof -
  assume t: "table_ok s"
  note l = table_ok_length[OF t]
  have "distinct (map pid (filter (\<lambda>j. pid j \<noteq> 0) (jobs s)))"
    by (rule distinct_map_filter_nth) (use table_ok_uniq[OF t] l in auto)
  then show ?thesis by (simp add: live_jobs[OF t])
qed

lemma live_jids:
  assumes "table_ok s" and "jids_ok s"
  shows "distinct (map jid (live s)) \<and> (\<forall>j\<in>set (live s). 1 \<le> jid j \<and> jid j < next_jid s)"
proof -
  note l = table_ok_length[OF assms(1)]
  have 1: "distinct (map jid (filter (\<lambda>j. pid j \<noteq> 0) (jobs s)))"
    by (rule distinct_map_filter_nth) (use assms(2) l in \<open>auto simp: jids_ok_def\<close>)
  have 2: "1 \<le> jid j \<and> jid j < next_jid s" if "j \<in> set (filter (\<lambda>j. pid j \<noteq> 0) (jobs s))" for j
  proof -
    from that obtain i where "i < length (jobs s)" "jobs s ! i = j" "pid j \<noteq> 0"
      by (auto simp: in_set_conv_nth)
    with assms(2) l show ?thesis by (auto simp: jids_ok_def)
  qed
  from 1 2 show ?thesis by (simp add: live_jobs[OF assms(1)])
qed

lemma grown_slots:
  assumes "grown s s'" and "next_jid s < INT_MAX" and "i < MAX_JOBS" and "pid (jobs s' ! i) \<noteq> 0"
  shows "if pid (jobs s ! i) = 0
         then jid (jobs s' ! i) = next_jid s \<and> next_jid s' = next_jid s + 1
         else pid (jobs s' ! i) = pid (jobs s ! i) \<and> jid (jobs s' ! i) = jid (jobs s ! i)"
proof (cases "kept s s'")
  case True
  with assms(3,4) show ?thesis by (simp add: kept_def)
next
  case False
  with assms(1) obtain n where n: "n < MAX_JOBS" "pid (jobs s ! n) = 0"
      "next_jid s' = int_incr (next_jid s)"
    and r: "\<And>i. i < MAX_JOBS \<Longrightarrow> pid (jobs s' ! i) \<noteq> 0 \<Longrightarrow>
             (if i = n then jid (jobs s' ! i) = next_jid s
              else pid (jobs s' ! i) = pid (jobs s ! i) \<and> jid (jobs s' ! i) = jid (jobs s ! i))"
    unfolding grown_def by blast
  from n(3) assms(2) have "next_jid s' = next_jid s + 1" by (simp add: below_incr)
  with r[OF assms(3,4)] n(2) assms(4) show ?thesis by (cases "i = n") simp_all
qed

lemma idle_cycle:
  "shell_step (Command (''x'' @ [NL])
       \<lparr>pipes = [], forks = [Some 100], launch_events = [],
        wait_events = [ChildChange 100 (Exited 0)]\<rparr>) ((boot 1 0)\<lparr>next_jid := n\<rparr>)
   = Returns ((boot 1 0)\<lparr>next_jid := int_incr n\<rparr>)"
  by code_simp

lemma idle_reach: "1 \<le> n \<Longrightarrow> n \<le> INT_MAX \<longrightarrow> reach (Returns ((boot 1 0)\<lparr>next_jid := n\<rparr>))"
proof (induction n rule: int_ge_induct)
  case base
  have "(boot 1 0)\<lparr>next_jid := 1\<rparr> = boot 1 0" by (simp add: boot_def)
  with reach_boot[of 1 0] show ?case by simp
next
  case (step n)
  show ?case
  proof
    assume a: "n + 1 \<le> INT_MAX"
    with step.IH have r: "reach (Returns ((boot 1 0)\<lparr>next_jid := n\<rparr>))" by simp
    let ?inp = "Command (''x'' @ [NL])
       \<lparr>pipes = [], forks = [Some 100], launch_events = [],
        wait_events = [ChildChange 100 (Exited 0)]\<rparr>"
    have "input_ok ?inp ((boot 1 0)\<lparr>next_jid := n\<rparr>)"
      by (simp add: input_ok_def forked_def boot_def)
    from reach_step[OF r this]
    have "reach (Returns ((boot 1 0)\<lparr>next_jid := int_incr n\<rparr>))" by (simp only: idle_cycle)
    moreover from a have "int_incr n = n + 1" by (intro below_incr) simp
    ultimately show "reach (Returns ((boot 1 0)\<lparr>next_jid := n + 1\<rparr>))" by simp
  qed
qed

text \<open>
  C6 (as stated, refuted). The claim reads: jids are strictly increasing over the shell's
  lifetime, so that of two jobs added in order A then B, jid(A) < jid(B). \<open>next_jid\<close>
  is an \<open>int\<close> that \<open>addjob\<close> increments without a bound. The shell reaches its
  prompt with an empty table and \<open>next_jid = INT_MAX\<close> (after 2147483646 foreground
  commands that ran and exited). The background job \<open>sleep 30 &\<close> added there gets the
  job id 2147483647, the increment overflows, and the job \<open>sleep 40 &\<close> added after it
  gets the job id -2147483648 while the first job is still in the table.
\<close>

theorem job_ids_wrap_counterexample:
  "reach (Returns at_int_max) \<and> live at_int_max = []
   \<and> shell_step (Command (''sleep 30 &'' @ [NL])
        \<lparr>pipes = [], forks = [Some 100], launch_events = [], wait_events = []\<rparr>) at_int_max
     = Returns wrap_one
   \<and> map jid (live wrap_one) = [2147483647]
   \<and> shell_step (Command (''sleep 40 &'' @ [NL])
        \<lparr>pipes = [], forks = [Some 101], launch_events = [], wait_events = []\<rparr>) wrap_one
     = Returns wrap_two
   \<and> map jid (live wrap_two) = [2147483647, - 2147483648]"
proof -
  have "reach (Returns at_int_max)"
    using idle_reach[of 2147483647] by (simp add: at_int_max_def INT_MAX_def)
  moreover have "live at_int_max = []" by code_simp
  moreover have "shell_step (Command (''sleep 30 &'' @ [NL])
        \<lparr>pipes = [], forks = [Some 100], launch_events = [], wait_events = []\<rparr>) at_int_max
     = Returns wrap_one" by code_simp
  moreover have "map jid (live wrap_one) = [2147483647]" by code_simp
  moreover have "shell_step (Command (''sleep 40 &'' @ [NL])
        \<lparr>pipes = [], forks = [Some 101], launch_events = [], wait_events = []\<rparr>) wrap_one
     = Returns wrap_two" by code_simp
  moreover have "map jid (live wrap_two) = [2147483647, - 2147483648]" by code_simp
  ultimately show ?thesis by (intro conjI)
qed

text \<open>
  C6 (amended). In every state the shell reaches, at its prompt or waiting in
  \<open>waitfg\<close>, the live jobs have pairwise distinct process group ids. When the state
  is reached by a run in which \<open>next_jid\<close> was below \<open>INT_MAX\<close> whenever a command line
  or an event was taken, the live jobs have pairwise distinct job ids, and every job id
  in the table is at least 1 and below \<open>next_jid\<close>. One more command line or event,
  taken from a prompt state while \<open>next_jid\<close> is below
  \<open>INT_MAX\<close>, leaves the counter or adds one to it; a slot that is live afterwards and
  was live before holds the same job (same process group id, same job id), and a slot
  that is live afterwards and was empty before holds a new job whose job id is the old
  value of the counter, the counter being one more. Along such a run the counter never
  decreases. So of two jobs added in order A then B, in a step from the state and in a
  later step, jid(A) < jid(B), and no job id is handed out twice.
\<close>

theorem job_ids_unique_and_increasing:
  assumes "reach r" and "state_of r = Some s"
  shows "distinct (map pid (live s))
       \<and> (\<forall>self modes. 1 \<le> self \<and> before_wrap (Returns (boot self modes)) r \<longrightarrow>
              distinct (map jid (live s))
            \<and> (\<forall>j\<in>set (live s). 1 \<le> jid j \<and> jid j < next_jid s))
       \<and> (\<forall>inp s'. r = Returns s \<and> next_jid s < INT_MAX \<and> input_ok inp s
                 \<and> state_of (shell_step inp s) = Some s' \<longrightarrow>
              (next_jid s' = next_jid s \<or> next_jid s' = next_jid s + 1)
            \<and> (\<forall>i<MAX_JOBS. pid (jobs s' ! i) \<noteq> 0 \<longrightarrow>
                  (if pid (jobs s ! i) = 0
                   then jid (jobs s' ! i) = next_jid s \<and> next_jid s' = next_jid s + 1
                   else pid (jobs s' ! i) = pid (jobs s ! i)
                      \<and> jid (jobs s' ! i) = jid (jobs s ! i))))
       \<and> (\<forall>r' s'. before_wrap r r' \<and> state_of r' = Some s' \<longrightarrow> next_jid s \<le> next_jid s')
       \<and> (\<forall>inp s' i t inp' t' k.
              r = Returns s \<and> next_jid s < INT_MAX \<and> input_ok inp s
            \<and> state_of (shell_step inp s) = Some s'
            \<and> i < MAX_JOBS \<and> pid (jobs s ! i) = 0 \<and> pid (jobs s' ! i) \<noteq> 0
            \<and> before_wrap (shell_step inp s) (Returns t) \<and> next_jid t < INT_MAX
            \<and> input_ok inp' t \<and> state_of (shell_step inp' t) = Some t'
            \<and> k < MAX_JOBS \<and> pid (jobs t ! k) = 0 \<and> pid (jobs t' ! k) \<noteq> 0 \<longrightarrow>
              jid (jobs s' ! i) < jid (jobs t' ! k))"
proof -
  from reach_good[OF assms(1)] assms(2) have t: "table_ok s" by (rule good_state)
  have ids: "distinct (map jid (live s)) \<and> (\<forall>j\<in>set (live s). 1 \<le> jid j \<and> jid j < next_jid s)"
    if "1 \<le> self \<and> before_wrap (Returns (boot self modes)) r" for self modes
  proof -
    from that have "before_wrap (Returns (boot self modes)) r" by simp
    from before_wrap_jids[OF this refl jids_ok_boot assms(2)] have "jids_ok s" .
    with t show ?thesis by (rule live_jids)
  qed
  have step: "(next_jid s' = next_jid s \<or> next_jid s' = next_jid s + 1)
            \<and> (\<forall>i<MAX_JOBS. pid (jobs s' ! i) \<noteq> 0 \<longrightarrow>
                  (if pid (jobs s ! i) = 0
                   then jid (jobs s' ! i) = next_jid s \<and> next_jid s' = next_jid s + 1
                   else pid (jobs s' ! i) = pid (jobs s ! i)
                      \<and> jid (jobs s' ! i) = jid (jobs s ! i)))"
    if "r = Returns s \<and> next_jid s < INT_MAX \<and> input_ok inp s
        \<and> state_of (shell_step inp s) = Some s'" for inp s'
  proof -
    from that have "state_of (shell_step inp s) = Some s'" and b: "next_jid s < INT_MAX"
      by simp_all
    then have g: "grown s s'" by (intro grown_shell_step)
    show ?thesis
    proof (intro conjI allI impI)
      show "next_jid s' = next_jid s \<or> next_jid s' = next_jid s + 1"
        by (rule grown_counter[OF g b])
      fix i assume "i < MAX_JOBS" "pid (jobs s' ! i) \<noteq> 0"
      then show "if pid (jobs s ! i) = 0
                   then jid (jobs s' ! i) = next_jid s \<and> next_jid s' = next_jid s + 1
                   else pid (jobs s' ! i) = pid (jobs s ! i)
                      \<and> jid (jobs s' ! i) = jid (jobs s ! i)"
        by (rule grown_slots[OF g b])
    qed
  qed
  have mono: "next_jid s \<le> next_jid s'" if "before_wrap r r' \<and> state_of r' = Some s'" for r' s'
    using before_wrap_counter[OF _ assms(2), of r' s'] that by blast
  have order: "jid (jobs s' ! i) < jid (jobs t' ! k)"
    if a: "r = Returns s \<and> next_jid s < INT_MAX \<and> input_ok inp s
            \<and> state_of (shell_step inp s) = Some s'
            \<and> i < MAX_JOBS \<and> pid (jobs s ! i) = 0 \<and> pid (jobs s' ! i) \<noteq> 0
            \<and> before_wrap (shell_step inp s) (Returns t) \<and> next_jid t < INT_MAX
            \<and> input_ok inp' t \<and> state_of (shell_step inp' t) = Some t'
            \<and> k < MAX_JOBS \<and> pid (jobs t ! k) = 0 \<and> pid (jobs t' ! k) \<noteq> 0"
    for inp s' i t inp' t' k
  proof -
    from a have s': "state_of (shell_step inp s) = Some s'" and b: "next_jid s < INT_MAX"
      and i: "i < MAX_JOBS" "pid (jobs s ! i) = 0" "pid (jobs s' ! i) \<noteq> 0"
      by simp_all
    from s' have g: "grown s s'" by (rule grown_shell_step)
    from grown_slots[OF g b i(1,3)] i(2)
    have 1: "jid (jobs s' ! i) = next_jid s" "next_jid s' = next_jid s + 1" by simp_all
    from a have w: "before_wrap (shell_step inp s) (Returns t)" by simp
    from before_wrap_counter[OF w s', of t] have 2: "next_jid s' \<le> next_jid t" by simp
    from a have t': "state_of (shell_step inp' t) = Some t'" and b': "next_jid t < INT_MAX"
      and k: "k < MAX_JOBS" "pid (jobs t ! k) = 0" "pid (jobs t' ! k) \<noteq> 0"
      by simp_all
    from t' have g': "grown t t'" by (rule grown_shell_step)
    from grown_slots[OF g' b' k(1,3)] k(2) have 3: "jid (jobs t' ! k) = next_jid t" by simp
    from 1 2 3 show ?thesis by simp
  qed
  show ?thesis
  proof (intro conjI)
    show "distinct (map pid (live s))" by (rule live_pids[OF t])
  qed (intro allI impI, erule ids step mono order)+
qed

theorem job_ids_unique_and_increasing_witness:
  "reach (Returns two_jobs) \<and> state_of (Returns two_jobs) = Some two_jobs
   \<and> (1::int) \<le> 1 \<and> before_wrap (Returns (boot 1 0)) (Returns two_jobs)
   \<and> map jid (live two_jobs) = [1, 2] \<and> map pid (live two_jobs) = [100, 101]
   \<and> next_jid two_jobs = 3
   \<and> distinct (map pid (live two_jobs)) \<and> distinct (map jid (live two_jobs))
   \<and> shell_step (Command (''sleep 30 &'' @ [NL])
        \<lparr>pipes = [], forks = [Some 100], launch_events = [], wait_events = []\<rparr>) (boot 1 0)
      = Returns one_bg_job
   \<and> shell_step (Command (''sleep 40 &'' @ [NL])
        \<lparr>pipes = [], forks = [Some 101], launch_events = [], wait_events = []\<rparr>) one_bg_job
      = Returns two_jobs
   \<and> jid (jobs one_bg_job ! 0) < jid (jobs two_jobs ! 1)"
proof -
  let ?c1 = "Command (''sleep 30 &'' @ [NL])
        \<lparr>pipes = [], forks = [Some 100], launch_events = [], wait_events = []\<rparr>"
  let ?c2 = "Command (''sleep 40 &'' @ [NL])
        \<lparr>pipes = [], forks = [Some 101], launch_events = [], wait_events = []\<rparr>"
  have e1: "shell_step ?c1 (boot 1 0) = Returns one_bg_job" by code_simp
  have e2: "shell_step ?c2 one_bg_job = Returns two_jobs" by code_simp
  have r0: "before_wrap (Returns (boot 1 0)) (Returns (boot 1 0))" by (rule before_wrap_refl)
  have b1: "next_jid (boot 1 0) < INT_MAX" by code_simp
  have i1: "input_ok ?c1 (boot 1 0)" by code_simp
  from before_wrap_step[OF r0 b1 i1]
  have r1: "before_wrap (Returns (boot 1 0)) (Returns one_bg_job)" by (simp only: e1)
  have b2: "next_jid one_bg_job < INT_MAX" by code_simp
  have i2: "input_ok ?c2 one_bg_job" by code_simp
  from before_wrap_step[OF r1 b2 i2]
  have r2: "before_wrap (Returns (boot 1 0)) (Returns two_jobs)" by (simp only: e2)
  have rb: "reach (Returns (boot 1 0))" by (rule reach_boot) simp
  have r: "reach (Returns two_jobs)" by (rule before_wrap_reach[OF r2 rb])
  have m: "map jid (live two_jobs) = [1, 2]" "map pid (live two_jobs) = [100, 101]"
    "next_jid two_jobs = 3"
    by code_simp+
  note t = job_ids_unique_and_increasing[OF r state_of.simps(1)]
  from t have p: "distinct (map pid (live two_jobs))" by (rule conjunct1)
  have "(1::int) \<le> 1 \<and> before_wrap (Returns (boot 1 0)) (Returns two_jobs)"
    using r2 by simp
  from t[THEN conjunct2, THEN conjunct1, THEN spec, THEN spec, THEN mp, OF this]
  have j: "distinct (map jid (live two_jobs))" by (rule conjunct1)
  have f: "(0::nat) < MAX_JOBS" "pid (jobs (boot 1 0) ! 0) = 0" "pid (jobs one_bg_job ! 0) \<noteq> 0"
    "(1::nat) < MAX_JOBS" "pid (jobs one_bg_job ! 1) = 0" "pid (jobs two_jobs ! 1) \<noteq> 0"
    by code_simp+
  have "Returns (boot 1 0) = Returns (boot 1 0) \<and> next_jid (boot 1 0) < INT_MAX
      \<and> input_ok ?c1 (boot 1 0) \<and> state_of (shell_step ?c1 (boot 1 0)) = Some one_bg_job
      \<and> (0::nat) < MAX_JOBS \<and> pid (jobs (boot 1 0) ! 0) = 0 \<and> pid (jobs one_bg_job ! 0) \<noteq> 0
      \<and> before_wrap (shell_step ?c1 (boot 1 0)) (Returns one_bg_job)
      \<and> next_jid one_bg_job < INT_MAX
      \<and> input_ok ?c2 one_bg_job \<and> state_of (shell_step ?c2 one_bg_job) = Some two_jobs
      \<and> (1::nat) < MAX_JOBS \<and> pid (jobs one_bg_job ! 1) = 0 \<and> pid (jobs two_jobs ! 1) \<noteq> 0"
    unfolding e1 e2 state_of.simps
    by (intro conjI refl b1 i1 f b2 i2 before_wrap_refl)
  from job_ids_unique_and_increasing[OF rb state_of.simps(1), THEN conjunct2, THEN conjunct2,
      THEN conjunct2, THEN conjunct2, THEN spec, THEN spec, THEN spec, THEN spec, THEN spec,
      THEN spec, THEN spec, THEN mp, OF this]
  have o: "jid (jobs one_bg_job ! 0) < jid (jobs two_jobs ! 1)" .
  show ?thesis
    by (intro conjI) (rule r r2 m p j e1 e2 o state_of.simps | simp)+
qed

section \<open>At most one foreground job\<close>

text \<open>
  Claim C7. In every state the shell reaches, at most one live job of the table is in state
  \<open>FG\<close>; at the prompt there is none. The foreground launch of
  \<open>process_pipeline\<close> and the built-in \<open>fg\<close> of \<open>do_bgfg\<close> are the
  two places that set the state, both from a prompt state, and both go on to
  \<open>waitfg\<close>, which returns only once that job has left the foreground.
\<close>

theorem at_most_one_foreground_job:
  assumes "reach r" and "state_of r = Some s"
  shows "length (filter (\<lambda>j. state j = FG) (live s)) \<le> 1
       \<and> (r = Returns s \<longrightarrow> filter (\<lambda>j. state j = FG) (live s) = [])"
proof -
  from reach_good[OF assms(1)] assms(2) have t: "table_ok s" by (rule good_state)
  note l = table_ok_length[OF t]
  have e: "filter (\<lambda>j. state j = FG) (live s)
           = filter (\<lambda>j. pid j \<noteq> 0 \<and> state j = FG) (jobs s)"
    by (simp add: live_jobs[OF t] conj_commute)
  from reach_good[OF assms(1)] assms(2) obtain p where f: "fg_in (\<lambda>i q. q = p) s"
    by (cases r) (auto simp: good_def intro: fg_in_weaken)
  have "length (filter (\<lambda>j. pid j \<noteq> 0 \<and> state j = FG) (jobs s)) \<le> 1"
  proof (rule filter_at_most_one)
    fix i k assume a: "i < length (jobs s)" "k < length (jobs s)"
      "pid (jobs s ! i) \<noteq> 0 \<and> state (jobs s ! i) = FG"
      "pid (jobs s ! k) \<noteq> 0 \<and> state (jobs s ! k) = FG"
    with fg_inD[OF f, of i] fg_inD[OF f, of k] l
    have "pid (jobs s ! i) = pid (jobs s ! k)" by simp
    with table_ok_uniq[OF t, of i k] a l show "i = k" by auto
  qed
  moreover have "filter (\<lambda>j. pid j \<noteq> 0 \<and> state j = FG) (jobs s) = []" if "r = Returns s"
  proof -
    from that reach_good[OF assms(1)] have n: "fg_in (\<lambda>i q. False) s" by (simp add: good_def)
    have "\<not> (pid j \<noteq> 0 \<and> state j = FG)" if "j \<in> set (jobs s)" for j
    proof -
      from that obtain i where "i < length (jobs s)" "jobs s ! i = j"
        by (auto simp: in_set_conv_nth)
      with fg_inD[OF n, of i] l show ?thesis by auto
    qed
    then show ?thesis by (simp add: filter_empty_conv)
  qed
  ultimately show ?thesis by (simp add: e)
qed

theorem at_most_one_foreground_job_witness:
  "reach (Waits ((one_job FG)\<lparr>tty_pgrp := 100\<rparr>))
   \<and> state_of (Waits ((one_job FG)\<lparr>tty_pgrp := 100\<rparr>)) = Some ((one_job FG)\<lparr>tty_pgrp := 100\<rparr>)
   \<and> map pid (filter (\<lambda>j. state j = FG) (live ((one_job FG)\<lparr>tty_pgrp := 100\<rparr>))) = [100]
   \<and> length (filter (\<lambda>j. state j = FG) (live ((one_job FG)\<lparr>tty_pgrp := 100\<rparr>))) \<le> 1"
proof -
  let ?k = "\<lparr>pipes = [], forks = [Some 100], launch_events = [], wait_events = []\<rparr>"
  have e: "shell_step (Command (''sleep 30'' @ [NL]) ?k) (boot 1 0)
           = Waits ((one_job FG)\<lparr>tty_pgrp := 100\<rparr>)"
    by code_simp
  have r0: "reach (Returns (boot 1 0))" by (rule reach_boot) simp
  have i: "input_ok (Command (''sleep 30'' @ [NL]) ?k) (boot 1 0)"
    by (simp add: input_ok_def forked_def boot_def)
  from reach_step[OF r0 i] e have r: "reach (Waits ((one_job FG)\<lparr>tty_pgrp := 100\<rparr>))" by simp
  have m: "map pid (filter (\<lambda>j. state j = FG) (live ((one_job FG)\<lparr>tty_pgrp := 100\<rparr>))) = [100]"
    by code_simp
  from at_most_one_foreground_job[OF r, of "(one_job FG)\<lparr>tty_pgrp := 100\<rparr>"] r m
  show ?thesis by simp
qed

end
